theory Spec2Isabelle
  imports Main
begin

section \<open>JavaScript values\<close>

text \<open>
  The answer parser of \<^verbatim>\<open>frontend/src/components/Answer/AnswerParser.tsx\<close> reads its
  payload through \<^verbatim>\<open>any\<close>: it tests \<^verbatim>\<open>typeof\<close>, \<^verbatim>\<open>Array.isArray\<close>, truthiness and
  \<^verbatim>\<open>!= null\<close> on whatever the backend sent. The payload is therefore modelled as a tree
  of JavaScript values, the shape \<^verbatim>\<open>JSON.parse\<close> produces, with \<open>Undefined\<close> for an
  absent property. Numbers are the integer-valued ones (page numbers, counters); strings
  are lists of characters. An object lists its properties in enumeration order, each key
  once. Every object or array of a payload is a node of its own: no two positions of
  the tree hold the same reference.
\<close>

datatype jsval =
    Undefined
  | Null
  | Bool bool
  | Num int
  | Str string
  | Arr "jsval list"
  | Obj "(string \<times> jsval) list"

datatype error = TypeError | SyntaxError

text \<open>\<^verbatim>\<open>v == null\<close>: the value is \<^verbatim>\<open>null\<close> or \<^verbatim>\<open>undefined\<close>.\<close>

fun nullish :: "jsval \<Rightarrow> bool" where
  "nullish Undefined = True"
| "nullish Null = True"
| "nullish _ = False"

text \<open>\<^verbatim>\<open>a ?? b\<close>.\<close>

definition coalesce :: "jsval \<Rightarrow> jsval \<Rightarrow> jsval" where
  "coalesce a b = (if nullish a then b else a)"

text \<open>The truthiness a condition or \<^verbatim>\<open>&&\<close> tests.\<close>

fun truthy :: "jsval \<Rightarrow> bool" where
  "truthy Undefined = False"
| "truthy Null = False"
| "truthy (Bool b) = b"
| "truthy (Num n) = (n \<noteq> 0)"
| "truthy (Str s) = (s \<noteq> [])"
| "truthy (Arr xs) = True"
| "truthy (Obj kvs) = True"

text \<open>\<^verbatim>\<open>typeof v === 'object'\<close> for a value other than \<^verbatim>\<open>null\<close>: a property can be set on it.\<close>

fun is_object :: "jsval \<Rightarrow> bool" where
  "is_object (Arr xs) = True"
| "is_object (Obj kvs) = True"
| "is_object _ = False"

fun is_string :: "jsval \<Rightarrow> bool" where
  "is_string (Str s) = True"
| "is_string _ = False"

text \<open>
  \<^verbatim>\<open>v?.k\<close> for the data properties the parser names (\<^verbatim>\<open>role\<close>, \<^verbatim>\<open>content\<close>,
  \<^verbatim>\<open>citations\<close>, \<^verbatim>\<open>docId\<close>, ...): an own property of an object, and \<^verbatim>\<open>undefined\<close> on
  anything else, \<^verbatim>\<open>null\<close> and \<^verbatim>\<open>undefined\<close> included. After a guard that excludes
  \<^verbatim>\<open>null\<close> and \<^verbatim>\<open>undefined\<close> the plain \<^verbatim>\<open>v.k\<close> reads the same.
\<close>

fun get_prop :: "jsval \<Rightarrow> string \<Rightarrow> jsval" where
  "get_prop (Obj kvs) k = (case map_of kvs k of Some v \<Rightarrow> v | None \<Rightarrow> Undefined)"
| "get_prop _ k = Undefined"

text \<open>\<^verbatim>\<open>v.k\<close> without a guard: reading a property of \<^verbatim>\<open>null\<close> or \<^verbatim>\<open>undefined\<close> throws.\<close>

definition member :: "jsval \<Rightarrow> string \<Rightarrow> error + jsval" where
  "member v k = (if nullish v then Inl TypeError else Inr (get_prop v k))"

text \<open>\<^verbatim>\<open>String(n)\<close> and \<^verbatim>\<open>n.toString()\<close> of a counter.\<close>

fun show_nat :: "nat \<Rightarrow> string" where
  "show_nat n = (if n < 10 then [''0123456789'' ! n]
     else show_nat (n div 10) @ [''0123456789'' ! (n mod 10)])"

declare show_nat.simps [simp del]

definition show_int :: "int \<Rightarrow> string" where
  "show_int n = (if n < 0 then ''-'' @ show_nat (nat (- n)) else show_nat (nat n))"

text \<open>\<^verbatim>\<open>Number(s)\<close> of a string of decimal digits, the only strings the parser converts.\<close>

definition is_digit :: "char \<Rightarrow> bool" where
  "is_digit c = (c \<in> set ''0123456789'')"

definition Number_of :: "string \<Rightarrow> nat" where
  "Number_of s = foldl (\<lambda>a c. 10 * a + (of_char c - 48)) 0 s"

text \<open>
  \<^verbatim>\<open>v[i]\<close> with a computed integer index: throws on \<^verbatim>\<open>null\<close> and \<^verbatim>\<open>undefined\<close>, reads
  an element of an array or a character of a string, the property named by the index
  on an object, and is \<^verbatim>\<open>undefined\<close> out of range or on a number or boolean.
\<close>

fun index_prop :: "jsval \<Rightarrow> int \<Rightarrow> error + jsval" where
  "index_prop Undefined i = Inl TypeError"
| "index_prop Null i = Inl TypeError"
| "index_prop (Arr xs) i =
     Inr (if 0 \<le> i \<and> i < int (length xs) then xs ! nat i else Undefined)"
| "index_prop (Str s) i =
     Inr (if 0 \<le> i \<and> i < int (length s) then Str [s ! nat i] else Undefined)"
| "index_prop (Obj kvs) i = Inr (get_prop (Obj kvs) (show_int i))"
| "index_prop _ i = Inr Undefined"

subsection \<open>Strings\<close>

text \<open>\<^verbatim>\<open>s.slice(a, b)\<close> for \<open>0 \<le> a\<close> and \<open>0 \<le> b\<close>.\<close>

definition slice :: "nat \<Rightarrow> nat \<Rightarrow> string \<Rightarrow> string" where
  "slice a b s = take (b - a) (drop a s)"

text \<open>
  \<^verbatim>\<open>s.replaceAll(pat, rep)\<close> with a string pattern and a replacement free of \<^verbatim>\<open>$\<close>:
  the occurrences of \<open>pat\<close> are found from left to right without overlap; an empty
  pattern matches before every character and at the end.
\<close>

function replaceAll :: "string \<Rightarrow> string \<Rightarrow> string \<Rightarrow> string" where
  "replaceAll pat rep s =
     (if pat = [] then rep @ concat (map (\<lambda>c. c # rep) s)
      else if s = [] then []
      else if take (length pat) s = pat then rep @ replaceAll pat rep (drop (length pat) s)
      else hd s # replaceAll pat rep (tl s))"
  by pat_completeness auto
termination
  by (relation "measure (\<lambda>(pat, rep, s). length s)") auto

declare replaceAll.simps [simp del]

text \<open>
  The regular expression \<^verbatim>\<open>/\[(doc\d\d?\d?)]/g\<close>. \<open>match_at\<close> is the expression anchored
  at the start of the text: \<^verbatim>\<open>[doc\<close>, one to three digits taken greedily, \<^verbatim>\<open>]\<close>.
  \<open>match_all\<close> is \<^verbatim>\<open>answerText.match(...)\<close>: every match from left to right, the scan
  resuming after the end of a match; the empty list stands for the \<^verbatim>\<open>null\<close> of no match,
  over which \<^verbatim>\<open>citationLinks?.forEach\<close> does nothing either.
\<close>

definition match_at :: "string \<Rightarrow> string option" where
  "match_at s =
     (if take 4 s = ''[doc'' then
        (let ds = takeWhile is_digit (take 3 (drop 4 s))
         in if ds \<noteq> [] \<and> take 1 (drop (4 + length ds) s) = '']''
            then Some (''[doc'' @ ds @ '']'') else None)
      else None)"

function match_all :: "string \<Rightarrow> string list" where
  "match_all s =
     (if s = [] then []
      else case match_at s of
             Some m \<Rightarrow> m # match_all (drop (length m) s)
           | None \<Rightarrow> match_all (tl s))"
  by pat_completeness auto
termination
  by (relation "measure length") (auto simp: match_at_def Let_def split: if_splits)

declare match_all.simps [simp del]

section \<open>The data model\<close>

text \<open>
  \<^verbatim>\<open>Citation\<close> of \<^verbatim>\<open>frontend/src/api/models.ts\<close>. Each field holds the value the parser
  stores there; \<^verbatim>\<open>id\<close> is named \<open>citation_id\<close>.
\<close>

record Citation =
  citation_id :: jsval
  content :: jsval
  title :: jsval
  filepath :: jsval
  url :: jsval
  metadata :: jsval
  chunk_id :: jsval
  reindex_id :: jsval
  part_index :: jsval

text \<open>
  \<^verbatim>\<open>AskResponse\<close>, as the parser reads it: the three declared fields it uses and the
  \<^verbatim>\<open>choices\<close> it reaches through \<^verbatim>\<open>(answer as any)?.choices\<close>.
\<close>

record AskResponse =
  answer :: jsval
  citations :: jsval
  generated_chart :: jsval
  choices :: jsval

text \<open>
  The object \<^verbatim>\<open>parseAnswer\<close> returns; \<^verbatim>\<open>ParsedAnswer\<close> is this object or \<^verbatim>\<open>null\<close>,
  here \<open>None\<close>. Its \<^verbatim>\<open>citations\<close> and \<^verbatim>\<open>generated_chart\<close> carry the prefix \<open>parsed_\<close>.
\<close>

record ParsedAnswer =
  parsed_citations :: "Citation list"
  markdownFormatText :: string
  parsed_generated_chart :: jsval

text \<open>
  The view of a cloned pool entry as a \<^verbatim>\<open>Citation\<close>
  (\<^verbatim>\<open>cloneDeep(answer.citations[...]) as Citation\<close>): a copy whose fields read the
  entry's properties.
\<close>

definition as_Citation :: "jsval \<Rightarrow> Citation" where
  "as_Citation v =
     \<lparr> citation_id = get_prop v ''id'',
       content = get_prop v ''content'',
       title = get_prop v ''title'',
       filepath = get_prop v ''filepath'',
       url = get_prop v ''url'',
       metadata = get_prop v ''metadata'',
       chunk_id = get_prop v ''chunk_id'',
       reindex_id = get_prop v ''reindex_id'',
       part_index = get_prop v ''part_index'' \<rparr>"

section \<open>enumerateCitations\<close>

text \<open>
  The \<^verbatim>\<open>Map\<close> from filepath to counter. A \<^verbatim>\<open>Map\<close> compares primitive keys by value and
  objects by reference; every object of a payload being a node of its own, a filepath
  that is an object or an array is never found.
\<close>

definition map_get :: "(jsval \<rightharpoonup> nat) \<Rightarrow> jsval \<Rightarrow> nat option" where
  "map_get m k = (if is_object k then None else m k)"

fun enumerate_loop :: "(jsval \<rightharpoonup> nat) \<Rightarrow> Citation list \<Rightarrow> Citation list" where
  "enumerate_loop filepathMap [] = []"
| "enumerate_loop filepathMap (citation # rest) =
     (let part_i = (case map_get filepathMap (filepath citation) of
                      Some n \<Rightarrow> n + 1
                    | None \<Rightarrow> 1)
      in citation\<lparr>part_index := Num (int part_i)\<rparr>
         # enumerate_loop (filepathMap(filepath citation \<mapsto> part_i)) rest)"

definition enumerateCitations :: "Citation list \<Rightarrow> Citation list" where
  "enumerateCitations cs = enumerate_loop Map.empty cs"

section \<open>The citation normalizers\<close>

text \<open>
  \<^verbatim>\<open>JSON.stringify\<close> of a value of the tree, without indentation. A string is quoted,
  its quotes and backslashes escaped and a control character written as its short
  escape or as \<^verbatim>\<open>u00xx\<close> after a backslash; \<^verbatim>\<open>undefined\<close> is \<^verbatim>\<open>null\<close> inside an array
  and drops the property of an object.
\<close>

definition hex_digit :: "nat \<Rightarrow> char" where
  "hex_digit n = ''0123456789abcdef'' ! n"

definition json_escape :: "char \<Rightarrow> string" where
  "json_escape c =
     (if c = CHR 0x22 then [CHR 0x5C, CHR 0x22]
      else if c = CHR 0x5C then [CHR 0x5C, CHR 0x5C]
      else if c = CHR 0x08 then [CHR 0x5C, CHR ''b'']
      else if c = CHR 0x09 then [CHR 0x5C, CHR ''t'']
      else if c = CHR 0x0A then [CHR 0x5C, CHR ''n'']
      else if c = CHR 0x0C then [CHR 0x5C, CHR ''f'']
      else if c = CHR 0x0D then [CHR 0x5C, CHR ''r'']
      else if (of_char c :: nat) < 32
        then [CHR 0x5C, CHR ''u'', CHR ''0'', CHR ''0'',
              hex_digit (of_char c div 16), hex_digit (of_char c mod 16)]
      else [c])"

definition json_quote :: "string \<Rightarrow> string" where
  "json_quote s = CHR 0x22 # concat (map json_escape s) @ [CHR 0x22]"

fun join_with :: "string \<Rightarrow> string list \<Rightarrow> string" where
  "join_with sep [] = []"
| "join_with sep [x] = x"
| "join_with sep (x # y # ys) = x @ sep @ join_with sep (y # ys)"

fun JSON_stringify :: "jsval \<Rightarrow> string" where
  "JSON_stringify Undefined = ''null''"
| "JSON_stringify Null = ''null''"
| "JSON_stringify (Bool b) = (if b then ''true'' else ''false'')"
| "JSON_stringify (Num n) = show_int n"
| "JSON_stringify (Str s) = json_quote s"
| "JSON_stringify (Arr xs) = ''['' @ join_with '','' (map JSON_stringify xs) @ '']''"
| "JSON_stringify (Obj kvs) =
     ''{'' @ join_with '',''
        (map (\<lambda>kv. json_quote (fst kv) @ '':'' @ JSON_stringify (snd kv))
           (filter (\<lambda>kv. snd kv \<noteq> Undefined) kvs)) @ ''}''"

text \<open>
  The three fields both normalizers compute alike from the raw citation \<open>pf\<close>:
  \<^verbatim>\<open>pf?.page != null ? JSON.stringify({ page: pf.page }) : (pf?.metadata ?? null)\<close>,
  \<^verbatim>\<open>pf?.chunk_id ?? null\<close> and \<^verbatim>\<open>pf?.page ?? undefined\<close>.
\<close>

definition metadata_of :: "jsval \<Rightarrow> jsval" where
  "metadata_of pf =
     (if \<not> nullish (get_prop pf ''page'')
      then Str (JSON_stringify (Obj [(''page'', get_prop pf ''page'')]))
      else coalesce (get_prop pf ''metadata'') Null)"

text \<open>
  The object literal of the flat variant (first version of the file, lines 89 to 99),
  for the item \<open>pf\<close> at position \<open>i\<close>.
\<close>

definition flat_citation :: "nat \<Rightarrow> jsval \<Rightarrow> Citation" where
  "flat_citation i pf =
     \<lparr> citation_id = coalesce (get_prop pf ''docID'') (Str (show_nat (i + 1))),
       content = coalesce (get_prop pf ''content'') (Str []),
       title = coalesce (get_prop pf ''title'') Null,
       filepath = coalesce (get_prop pf ''pageSource'') Null,
       url = coalesce (get_prop pf ''URL'') Null,
       metadata = metadata_of pf,
       chunk_id = coalesce (get_prop pf ''chunk_id'') Null,
       reindex_id = Null,
       part_index = coalesce (get_prop pf ''page'') Undefined \<rparr>"

text \<open>
  The object literal of the structured variant (second and third versions, lines 320 to
  330 and 529 to 539).
\<close>

definition tool_citation :: "nat \<Rightarrow> jsval \<Rightarrow> Citation" where
  "tool_citation i pf =
     \<lparr> citation_id = coalesce (get_prop pf ''docId'') (Str (show_nat (i + 1))),
       content = coalesce (get_prop pf ''content'') (Str []),
       title = coalesce (get_prop pf ''title'') Null,
       filepath = coalesce (get_prop pf ''source'') (coalesce (get_prop pf ''filepath'') Null),
       url = coalesce (get_prop pf ''url'') Null,
       metadata = metadata_of pf,
       chunk_id = coalesce (get_prop pf ''chunk_id'') Null,
       reindex_id = Null,
       part_index = coalesce (get_prop pf ''page'') Undefined \<rparr>"

section \<open>extractPromptFlowCitations\<close>

subsection \<open>The flat variant: the top-level citations array\<close>

text \<open>\<^verbatim>\<open>pf && (pf.docID != null || pf.pageSource != null || pf.URL != null)\<close>.\<close>

definition hasPFKeys :: "jsval \<Rightarrow> bool" where
  "hasPFKeys pf =
     (truthy pf \<and> (\<not> nullish (get_prop pf ''docID'') \<or> \<not> nullish (get_prop pf ''pageSource'')
        \<or> \<not> nullish (get_prop pf ''URL'')))"

fun flat_loop :: "nat \<Rightarrow> jsval list \<Rightarrow> Citation list" where
  "flat_loop i [] = []"
| "flat_loop i (pf # rest) =
     (if \<not> hasPFKeys pf then flat_loop (i + 1) rest
      else flat_citation i pf # flat_loop (i + 1) rest)"

definition extractPromptFlowCitations_flat :: "AskResponse \<Rightarrow> Citation list" where
  "extractPromptFlowCitations_flat ans =
     (case citations ans of Arr cits \<Rightarrow> flat_loop 0 cits | _ \<Rightarrow> [])"

subsection \<open>The structured variant: tool messages under choices\<close>

text \<open>
  \<^verbatim>\<open>JSON.parse\<close> is the engine's; the model takes it as the parameter \<open>parse\<close>, \<open>None\<close>
  where it throws. The second and third versions of the file differ in the function
  they log with (\<^verbatim>\<open>debugLog\<close> in one, \<^verbatim>\<open>console.log\<close> in the other), and have this one
  model.

  The argument of a logging call is built before the call, whether logging is enabled
  or not. Where the argument is a template literal that interpolates a value of the
  payload, building it converts the value to a string, and the conversion throws on an
  object whose own \<^verbatim>\<open>toString\<close> property hides the inherited method. This is the case
  at line 281 (the role of a message that is not a tool message) and at lines 333 to
  335 (the identifier, the source and the page of a citation, before and after their
  defaults); in the third version these are lines 490 and 542 to 544. The other
  templates of the file interpolate strings and numbers the function computed, and the
  other values are logged through \<^verbatim>\<open>safeStringify\<close> and \<^verbatim>\<open>JSON.stringify\<close>, which do not
  throw on a parsed tree.
\<close>

text \<open>
  \<^verbatim>\<open>v.toString()\<close>. It throws on \<^verbatim>\<open>null\<close> and \<^verbatim>\<open>undefined\<close>, and on an object whose own
  \<^verbatim>\<open>toString\<close> property (data, in a parsed tree) hides the inherited method. An array
  joins its elements with commas, \<^verbatim>\<open>null\<close> and \<^verbatim>\<open>undefined\<close> as the empty string.
\<close>

fun js_toString :: "jsval \<Rightarrow> error + string" where
  "js_toString Undefined = Inl TypeError"
| "js_toString Null = Inl TypeError"
| "js_toString (Bool b) = Inr (if b then ''true'' else ''false'')"
| "js_toString (Num n) = Inr (show_int n)"
| "js_toString (Str s) = Inr s"
| "js_toString (Arr xs) =
     (let parts = map (\<lambda>x. if nullish x then Inr [] else js_toString x) xs
      in if list_ex isl parts then Inl TypeError
         else Inr (join_with '','' (map projr parts)))"
| "js_toString (Obj kvs) =
     (if map_of kvs ''toString'' \<noteq> None then Inl TypeError else Inr ''[object Object]'')"

text \<open>
  The string a template literal makes of an interpolated value: \<^verbatim>\<open>undefined\<close> and \<^verbatim>\<open>null\<close>
  have a name, any other value is converted as by its \<^verbatim>\<open>toString\<close> method.
\<close>

fun ToString :: "jsval \<Rightarrow> error + string" where
  "ToString Undefined = Inr ''undefined''"
| "ToString Null = Inr ''null''"
| "ToString v = js_toString v"

text \<open>A template literal that interpolates the values \<open>vs\<close>, built and then dropped.\<close>

definition template :: "jsval list \<Rightarrow> error + unit" where
  "template vs = (if list_ex (\<lambda>v. isl (ToString v)) vs then Inl TypeError else Inr ())"

text \<open>
  The loop over the citations of one tool message (lines 316 to 338): the citation
  object, the three templates of lines 333 to 335, the push.
\<close>

fun tool_loop :: "nat \<Rightarrow> jsval list \<Rightarrow> error + Citation list" where
  "tool_loop i [] = Inr []"
| "tool_loop i (pf # rest) =
     (let citation = tool_citation i pf in
      case template [get_prop pf ''docId'', citation_id citation,
                     get_prop pf ''source'', filepath citation,
                     get_prop pf ''page'', part_index citation] of
        Inl e \<Rightarrow> Inl e
      | Inr u \<Rightarrow>
          (case tool_loop (i + 1) rest of
             Inl e \<Rightarrow> Inl e
           | Inr out \<Rightarrow> Inr (citation # out)))"

text \<open>
  The body of the loop over messages (lines 277 to 339): the citations one message adds
  to \<^verbatim>\<open>out\<close>, or the exception of a template.
\<close>

definition message_citations :: "(string \<Rightarrow> jsval option) \<Rightarrow> jsval \<Rightarrow> error + Citation list" where
  "message_citations parse msg =
     (if get_prop msg ''role'' \<noteq> Str ''tool''
      then (case template [get_prop msg ''role''] of Inl e \<Rightarrow> Inl e | Inr u \<Rightarrow> Inr [])
      else if nullish (get_prop msg ''content'') then Inr []
      else case (case get_prop msg ''content'' of Str s \<Rightarrow> parse s | v \<Rightarrow> Some v) of
             None \<Rightarrow> Inr []
           | Some contentObj \<Rightarrow>
               (case get_prop contentObj ''citations'' of
                  Arr cits \<Rightarrow> tool_loop 0 cits
                | _ \<Rightarrow> Inr []))"

text \<open>
  A \<^verbatim>\<open>for ... of\<close> loop whose body adds citations to \<^verbatim>\<open>out\<close>: an exception of the body
  ends the loop and the function.
\<close>

fun for_of :: "(jsval \<Rightarrow> error + Citation list) \<Rightarrow> jsval list \<Rightarrow> error + Citation list" where
  "for_of body [] = Inr []"
| "for_of body (x # xs) =
     (case body x of
        Inl e \<Rightarrow> Inl e
      | Inr cs \<Rightarrow>
          (case for_of body xs of
             Inl e \<Rightarrow> Inl e
           | Inr out \<Rightarrow> Inr (cs @ out)))"

definition choice_citations :: "(string \<Rightarrow> jsval option) \<Rightarrow> jsval \<Rightarrow> error + Citation list" where
  "choice_citations parse choice =
     (case get_prop choice ''messages'' of
        Arr messages \<Rightarrow> for_of (message_citations parse) messages
      | _ \<Rightarrow> Inr [])"

definition extractPromptFlowCitations :: "(string \<Rightarrow> jsval option) \<Rightarrow> AskResponse \<Rightarrow> error + Citation list" where
  "extractPromptFlowCitations parse ans =
     (case choices ans of
        Arr chs \<Rightarrow> for_of (choice_citations parse) chs
      | _ \<Rightarrow> Inr [])"

section \<open>parseAnswer\<close>

text \<open>
  The state the \<^verbatim>\<open>forEach\<close> over the citation links updates: the three local variables
  \<^verbatim>\<open>answerText\<close>, \<^verbatim>\<open>citationReindex\<close> and \<^verbatim>\<open>filteredCitations\<close>.
\<close>

record inline_state =
  answerText :: string
  citationReindex :: nat
  filteredCitations :: "Citation list"

definition lengthDocN :: nat where
  "lengthDocN = length ''[doc''"

text \<open>\<^verbatim>\<open>link.slice(lengthDocN, link.length - 1)\<close>.\<close>

definition citationIndex :: "string \<Rightarrow> string" where
  "citationIndex link = slice lengthDocN (length link - 1) link"

text \<open>The template literal around \<^verbatim>\<open>++citationReindex\<close>: space, caret, counter, caret, space.\<close>

definition placeholder :: "nat \<Rightarrow> string" where
  "placeholder n = '' ^'' @ show_nat n @ ''^ ''"

text \<open>
  The callback of the \<^verbatim>\<open>forEach\<close>. The file is a module, hence strict code: the
  assignment \<^verbatim>\<open>citation.id = citationIndex\<close> throws when \<^verbatim>\<open>citation\<close> is a truthy
  primitive, and the read \<^verbatim>\<open>answer.citations[...]\<close> throws when the pool is \<^verbatim>\<open>null\<close> or
  \<^verbatim>\<open>undefined\<close>.
\<close>

definition inline_step :: "jsval \<Rightarrow> inline_state \<Rightarrow> string \<Rightarrow> error + inline_state" where
  "inline_step pool st link =
     (case index_prop pool (int (Number_of (citationIndex link)) - 1) of
        Inl e \<Rightarrow> Inl e
      | Inr citation \<Rightarrow>
          if find (\<lambda>c. citation_id c = Str (citationIndex link)) (filteredCitations st) = None
             \<and> truthy citation
          then if is_object citation
               then Inr \<lparr> answerText = replaceAll link (placeholder (citationReindex st + 1))
                                       (answerText st),
                         citationReindex = citationReindex st + 1,
                         filteredCitations = filteredCitations st @
                           [(as_Citation citation)
                              \<lparr> citation_id := Str (citationIndex link),
                                reindex_id := Str (show_nat (citationReindex st + 1)) \<rparr>] \<rparr>
               else Inl TypeError
          else Inr st)"

fun forEach_link :: "jsval \<Rightarrow> string list \<Rightarrow> inline_state \<Rightarrow> error + inline_state" where
  "forEach_link pool [] st = Inr st"
| "forEach_link pool (link # links) st =
     (case inline_step pool st link of
        Inl e \<Rightarrow> Inl e
      | Inr st' \<Rightarrow> forEach_link pool links st')"

text \<open>The inline pass: lines 120 to 152, from the match to the end of the \<^verbatim>\<open>forEach\<close>.\<close>

definition inline_pass :: "jsval \<Rightarrow> string \<Rightarrow> error + inline_state" where
  "inline_pass pool text =
     forEach_link pool (match_all text)
       \<lparr> answerText = text, citationReindex = 0, filteredCitations = [] \<rparr>"

text \<open>\<^verbatim>\<open>pfCitations.forEach((c, idx) => { c.reindex_id = (idx + 1).toString() })\<close>.\<close>

fun reindex_loop :: "nat \<Rightarrow> Citation list \<Rightarrow> Citation list" where
  "reindex_loop idx [] = []"
| "reindex_loop idx (c # cs) =
     c\<lparr>reindex_id := Str (show_nat (idx + 1))\<rparr> # reindex_loop (idx + 1) cs"

text \<open>
  Lines 163 to 173, inside the test \<^verbatim>\<open>filteredCitations.length === 0\<close>: the citations of
  the extractor replace the empty list when there are any, renumbered for display.
\<close>

definition use_fallback :: "Citation list \<Rightarrow> Citation list \<Rightarrow> Citation list" where
  "use_fallback filtered pfCitations =
     (if length pfCitations > 0 then reindex_loop 0 pfCitations else filtered)"

text \<open>Lines 178 to 192: the enumeration and the result object.\<close>

definition result_object :: "AskResponse \<Rightarrow> string \<Rightarrow> Citation list \<Rightarrow> ParsedAnswer" where
  "result_object ans text filtered =
     \<lparr> parsed_citations = enumerateCitations filtered,
       markdownFormatText = text,
       parsed_generated_chart = generated_chart ans \<rparr>"

text \<open>
  First version of the file (lines 110 to 193): the fallback reads the top-level
  citations array. Its extractor has no template over a value of the payload and does
  not throw.
\<close>

definition parseAnswer_flat :: "AskResponse \<Rightarrow> error + ParsedAnswer option" where
  "parseAnswer_flat ans =
     (case answer ans of
        Str text \<Rightarrow>
          (case inline_pass (citations ans) text of
             Inl e \<Rightarrow> Inl e
           | Inr st \<Rightarrow>
               if length (filteredCitations st) = 0
               then Inr (Some (result_object ans (answerText st)
                      (use_fallback (filteredCitations st) (extractPromptFlowCitations_flat ans))))
               else Inr (Some (result_object ans (answerText st) (filteredCitations st))))
      | _ \<Rightarrow> Inr None)"

text \<open>
  Second and third versions (lines 347 to 430 and 556 to 639): the fallback reads the
  tool messages, and an exception of the extractor is one of \<^verbatim>\<open>parseAnswer\<close>. The
  extractor is called only when the inline pass added no citation.
\<close>

definition parseAnswer :: "(string \<Rightarrow> jsval option) \<Rightarrow> AskResponse \<Rightarrow> error + ParsedAnswer option" where
  "parseAnswer parse ans =
     (case answer ans of
        Str text \<Rightarrow>
          (case inline_pass (citations ans) text of
             Inl e \<Rightarrow> Inl e
           | Inr st \<Rightarrow>
               if length (filteredCitations st) = 0
               then (case extractPromptFlowCitations parse ans of
                       Inl e \<Rightarrow> Inl e
                     | Inr pfCitations \<Rightarrow>
                         Inr (Some (result_object ans (answerText st)
                           (use_fallback (filteredCitations st) pfCitations))))
               else Inr (Some (result_object ans (answerText st) (filteredCitations st))))
      | _ \<Rightarrow> Inr None)"

section \<open>parsePlotFromMessage\<close>

text \<open>\<^verbatim>\<open>v.at(-1)\<close>: arrays and strings have the method; on anything else the call throws.\<close>

fun at_last :: "jsval \<Rightarrow> error + jsval" where
  "at_last (Arr xs) = Inr (if xs = [] then Undefined else last xs)"
| "at_last (Str s) = Inr (if s = [] then Undefined else Str [last s])"
| "at_last _ = Inl TypeError"

text \<open>The body of the \<^verbatim>\<open>try\<close> block (part_001, lines 773 to 779).\<close>

definition plot_try :: "(string \<Rightarrow> jsval option) \<Rightarrow> string \<Rightarrow> error + jsval" where
  "plot_try parse content_str =
     (case parse content_str of
        None \<Rightarrow> Inl SyntaxError
      | Some execResults \<Rightarrow>
          (case member execResults ''all_exec_results'' of
             Inl e \<Rightarrow> Inl e
           | Inr all_exec_results \<Rightarrow>
               (case at_last all_exec_results of
                  Inl e \<Rightarrow> Inl e
                | Inr last_result \<Rightarrow>
                    (let codeExecResult = get_prop last_result ''code_exec_result''
                     in if codeExecResult = Undefined then Inr Null
                        else (case js_toString codeExecResult of
                                Inl e \<Rightarrow> Inl e
                              | Inr s \<Rightarrow> Inr (Str s))))))"

definition parsePlotFromMessage :: "(string \<Rightarrow> jsval option) \<Rightarrow> jsval \<Rightarrow> jsval" where
  "parsePlotFromMessage parse message =
     (if truthy (get_prop message ''role'') \<and> get_prop message ''role'' = Str ''tool''
         \<and> is_string (get_prop message ''content'')
      then (case get_prop message ''content'' of
              Str content_str \<Rightarrow>
                (case plot_try parse content_str of Inl e \<Rightarrow> Null | Inr v \<Rightarrow> v)
            | _ \<Rightarrow> Null)
      else Null)"

section \<open>Notions used to state the properties\<close>

text \<open>
  Two filepaths are one key of the \<^verbatim>\<open>Map\<close> when they are the same primitive value;
  \<open>running_count cs i\<close> is one more than the number of citations before position \<open>i\<close>
  whose filepath is the key of the citation at \<open>i\<close>.
\<close>

definition same_group :: "jsval \<Rightarrow> jsval \<Rightarrow> bool" where
  "same_group a b = (a = b \<and> \<not> is_object a)"

definition running_count :: "Citation list \<Rightarrow> nat \<Rightarrow> nat" where
  "running_count cs i =
     length (filter (\<lambda>c. same_group (filepath c) (filepath (cs ! i))) (take i cs)) + 1"

definition map_base :: "(jsval \<rightharpoonup> nat) \<Rightarrow> jsval \<Rightarrow> nat" where
  "map_base m k = (case map_get m k of None \<Rightarrow> 0 | Some n \<Rightarrow> n)"

text \<open>The sample data of the test file (part_003, lines 7 to 41).\<close>

definition sampleCitation :: "string \<Rightarrow> string \<Rightarrow> jsval" where
  "sampleCitation i f =
     Obj [(''id'', Str i), (''filepath'', Str f), (''content'', Str []), (''title'', Null),
          (''url'', Null), (''metadata'', Null), (''chunk_id'', Null), (''reindex_id'', Null)]"

definition sampleCitations :: "jsval list" where
  "sampleCitations =
     [sampleCitation ''doc1'' ''file1.pdf'', sampleCitation ''doc2'' ''file1.pdf'',
      sampleCitation ''doc3'' ''file2.pdf'']"

text \<open>
  The citation pool as \<^verbatim>\<open>AskResponse\<close> declares it (\<^verbatim>\<open>citations: Citation[]\<close>): an array
  whose entries are objects.
\<close>

definition pool_typed :: "jsval \<Rightarrow> bool" where
  "pool_typed pool = (case pool of Arr cs \<Rightarrow> list_all is_object cs | _ \<Rightarrow> False)"

text \<open>
  A tool message whose content parses to the execution results of the image
  documentation (part_001, lines 695 to 700), and a \<^verbatim>\<open>JSON.parse\<close> that knows this content.
\<close>

definition chart_message :: jsval where
  "chart_message = Obj [(''role'', Str ''tool''), (''content'', Str ''chart'')]"

definition chart_parse :: "string \<Rightarrow> jsval option" where
  "chart_parse s =
     (if s = ''chart''
      then Some (Obj [(''all_exec_results'', Arr [Obj [(''code_exec_result'', Str ''iVBOR'')]])])
      else None)"

text \<open>
  The JSON text of an object whose one key \<^verbatim>\<open>page\<close> holds \<open>v\<close>: an opening brace, the
  quoted key, a colon, the JSON text of \<open>v\<close>, a closing brace.
\<close>

definition page_json :: "jsval \<Rightarrow> string" where
  "page_json v = ''{'' @ [CHR 0x22] @ ''page'' @ [CHR 0x22] @ '':'' @ JSON_stringify v @ ''}''"

text \<open>A \<^verbatim>\<open>JSON.parse\<close> result whose chart field is the number 5.\<close>

definition numeric_chart_parse :: "string \<Rightarrow> jsval option" where
  "numeric_chart_parse s =
     Some (Obj [(''all_exec_results'', Arr [Obj [(''code_exec_result'', Num 5)]])])"

text \<open>
  The inline pass in closed form. \<open>pool_entry\<close> is the entry a link reads, \<open>Undefined\<close>
  where there is none; a link is \<open>resolvable\<close> when that entry is truthy, which is what
  the callback tests. \<open>inline_links\<close> are the distinct resolvable markers of a text in
  the order of their first occurrence, \<open>inline_citation\<close> is the citation the callback
  builds for a link and a counter, and \<open>replace_links\<close> replaces every occurrence of each
  link by the placeholder of its counter, counting from \<open>n\<close>.
\<close>

definition pool_entry :: "jsval \<Rightarrow> string \<Rightarrow> jsval" where
  "pool_entry pool link =
     (case index_prop pool (int (Number_of (citationIndex link)) - 1) of
        Inr v \<Rightarrow> v | Inl e \<Rightarrow> Undefined)"

definition resolvable :: "jsval \<Rightarrow> string \<Rightarrow> bool" where
  "resolvable pool link = truthy (pool_entry pool link)"

fun first_seen :: "'a list \<Rightarrow> 'a list" where
  "first_seen [] = []"
| "first_seen (x # xs) = x # filter (\<lambda>y. y \<noteq> x) (first_seen xs)"

definition inline_links :: "jsval \<Rightarrow> string \<Rightarrow> string list" where
  "inline_links pool text = filter (resolvable pool) (first_seen (match_all text))"

definition inline_citation :: "jsval \<Rightarrow> nat \<Rightarrow> string \<Rightarrow> Citation" where
  "inline_citation pool k link =
     (as_Citation (pool_entry pool link))
       \<lparr> citation_id := Str (citationIndex link), reindex_id := Str (show_nat k) \<rparr>"

fun number_from :: "nat \<Rightarrow> 'a list \<Rightarrow> (nat \<times> 'a) list" where
  "number_from n [] = []"
| "number_from n (x # xs) = (n, x) # number_from (n + 1) xs"

fun replace_links :: "nat \<Rightarrow> string list \<Rightarrow> string \<Rightarrow> string" where
  "replace_links n [] text = text"
| "replace_links n (link # links) text =
     replace_links (n + 1) links (replaceAll link (placeholder n) text)"

definition is_marker :: "string \<Rightarrow> bool" where
  "is_marker link = (link = ''[doc'' @ citationIndex link @ '']'')"

text \<open>
  The links still to be added in a state: resolvable, not yet among the citations.
\<close>

definition pending :: "jsval \<Rightarrow> inline_state \<Rightarrow> string list \<Rightarrow> string list" where
  "pending pool st links =
     filter (\<lambda>l. resolvable pool l \<and> Str (citationIndex l) \<notin> citation_id ` set (filteredCitations st))
       (first_seen links)"

text \<open>
  The result object of an answer whose inline pass added citations: the enumerated
  inline citations, the text with its links replaced, the chart of the payload.
\<close>

definition inline_result :: "AskResponse \<Rightarrow> string \<Rightarrow> ParsedAnswer" where
  "inline_result ans text =
     \<lparr> parsed_citations = enumerateCitations
         (map (\<lambda>(k, l). inline_citation (citations ans) k l)
            (number_from 1 (inline_links (citations ans) text))),
       markdownFormatText = replace_links 1 (inline_links (citations ans) text) text,
       parsed_generated_chart = generated_chart ans \<rparr>"

text \<open>
  The payload of the test \<^verbatim>\<open>should NOT use PromptFlow citations when inline citations are
  present\<close> (part_003, lines 141 to 169), and a \<^verbatim>\<open>JSON.parse\<close> that knows the content of
  its tool message.
\<close>

definition mixedResponse :: AskResponse where
  "mixedResponse =
     \<lparr> answer = Str ''This has inline citation [doc1].'',
       citations = Arr sampleCitations,
       generated_chart = Null,
       choices = Arr [Obj [(''messages'',
         Arr [Obj [(''content'', Str ''Answer text''), (''role'', Str ''assistant'')],
              Obj [(''content'', Str ''tool content''), (''role'', Str ''tool'')]])]] \<rparr>"

definition tool_parse :: "string \<Rightarrow> jsval option" where
  "tool_parse s =
     (if s = ''tool content''
      then Some (Obj [(''citations'',
             Arr [Obj [(''docId'', Str ''TI46''), (''page'', Num 1),
                       (''source'', Str ''promptflow.pdf'')]])])
      else None)"

text \<open>
  The sample answer of the test file (part_003, lines 43 to 47); a payload whose tool
  message cites the same document twice; and the scenario of the spec.
\<close>

definition sampleAnswer :: AskResponse where
  "sampleAnswer =
     \<lparr> answer = Str ''This is an example answer with citations [doc1] and [doc2].'',
       citations = Arr sampleCitations,
       generated_chart = Null,
       choices = Undefined \<rparr>"

definition duplicateResponse :: AskResponse where
  "duplicateResponse =
     \<lparr> answer = Str ''Answer text.'',
       citations = Arr [],
       generated_chart = Null,
       choices = Arr [Obj [(''messages'',
         Arr [Obj [(''content'', Str ''Answer''), (''role'', Str ''assistant'')],
              Obj [(''content'', Str ''two citations''), (''role'', Str ''tool'')]])]] \<rparr>"

definition duplicate_parse :: "string \<Rightarrow> jsval option" where
  "duplicate_parse s =
     (if s = ''two citations''
      then Some (Obj [(''citations'',
             Arr [Obj [(''docId'', Str ''TI46''), (''page'', Num 1)],
                  Obj [(''docId'', Str ''TI46''), (''page'', Num 2)]])])
      else None)"

definition scenarioAnswer :: AskResponse where
  "scenarioAnswer =
     \<lparr> answer = Str ''See [doc1] and [doc2].'',
       citations = Arr [Obj [(''id'', Str ''doc1v''), (''filepath'', Str ''f1.pdf'')],
                        Obj [(''id'', Str ''doc2v''), (''filepath'', Str ''f1.pdf'')]],
       generated_chart = Null,
       choices = Undefined \<rparr>"

text \<open>
  The citations array a message carries as a tool message, empty when it carries none
  (another role, no content, content that fails to parse, no array under
  \<^verbatim>\<open>citations\<close>); the messages of a choice, and of all the choices of a payload, in the
  order the extractor scans them.
\<close>

definition message_array :: "(string \<Rightarrow> jsval option) \<Rightarrow> jsval \<Rightarrow> jsval list" where
  "message_array parse msg =
     (if get_prop msg ''role'' = Str ''tool'' then
        (case (case get_prop msg ''content'' of
                 Str s \<Rightarrow> parse s | Undefined \<Rightarrow> None | Null \<Rightarrow> None | v \<Rightarrow> Some v) of
           Some contentObj \<Rightarrow>
             (case get_prop contentObj ''citations'' of Arr cits \<Rightarrow> cits | _ \<Rightarrow> [])
         | None \<Rightarrow> [])
      else [])"

definition choice_messages :: "jsval \<Rightarrow> jsval list" where
  "choice_messages choice = (case get_prop choice ''messages'' of Arr ms \<Rightarrow> ms | _ \<Rightarrow> [])"

definition all_messages :: "AskResponse \<Rightarrow> jsval list" where
  "all_messages ans =
     (case choices ans of Arr chs \<Rightarrow> concat (map choice_messages chs) | _ \<Rightarrow> [])"






text \<open>
  The strings the regular expression matches: \<^verbatim>\<open>[doc\<close>, one to three digits, \<^verbatim>\<open>]\<close>.
\<close>

definition wf_marker :: "string \<Rightarrow> bool" where
  "wf_marker l =
     (is_marker l \<and> citationIndex l \<noteq> [] \<and> length (citationIndex l) \<le> 3
        \<and> list_all is_digit (citationIndex l))"

text \<open>
  A value has a string form when a template literal can interpolate it: every
  primitive has one, and so has an object unless an own \<^verbatim>\<open>toString\<close> property of it, or
  of an element of it, hides the inherited method. A citation of a tool message is
  loggable when the values that the templates of lines 333 to 335 interpolate have a
  string form; a message is loggable when its role has one, or when it is a tool message
  whose citations are loggable; a payload is loggable when every message the extractor
  scans is.
\<close>

definition printable :: "jsval \<Rightarrow> bool" where
  "printable v = (\<not> isl (ToString v))"

definition citation_loggable :: "jsval \<Rightarrow> bool" where
  "citation_loggable pf =
     (printable (get_prop pf ''docId'') \<and> printable (get_prop pf ''source'')
        \<and> printable (coalesce (get_prop pf ''source'') (get_prop pf ''filepath''))
        \<and> printable (get_prop pf ''page''))"

definition message_loggable :: "(string \<Rightarrow> jsval option) \<Rightarrow> jsval \<Rightarrow> bool" where
  "message_loggable parse msg =
     (if get_prop msg ''role'' = Str ''tool''
      then list_all citation_loggable (message_array parse msg)
      else printable (get_prop msg ''role''))"

definition loggable :: "(string \<Rightarrow> jsval option) \<Rightarrow> AskResponse \<Rightarrow> bool" where
  "loggable parse ans = list_all (message_loggable parse) (all_messages ans)"

text \<open>
  The citations of the tool messages of a payload, one for each element of their
  citations arrays, in scan order.
\<close>

definition tool_citations :: "(string \<Rightarrow> jsval option) \<Rightarrow> AskResponse \<Rightarrow> Citation list" where
  "tool_citations parse ans =
     concat (map (\<lambda>m. map (\<lambda>(i, pf). tool_citation i pf) (number_from 0 (message_array parse m)))
               (all_messages ans))"

text \<open>
  The callback of the inline pass can use the entry a link names when the read of the
  pool does not throw and the entry is falsy (the link is skipped) or an object (the
  clone can take the two assignments). A pool is usable for a text when this holds for
  every marker of the text.
\<close>

definition entry_usable :: "jsval \<Rightarrow> string \<Rightarrow> bool" where
  "entry_usable pool link =
     (case index_prop pool (int (Number_of (citationIndex link)) - 1) of
        Inl e \<Rightarrow> False
      | Inr v \<Rightarrow> \<not> truthy v \<or> is_object v)"

definition pool_usable :: "jsval \<Rightarrow> string \<Rightarrow> bool" where
  "pool_usable pool text = list_all (entry_usable pool) (match_all text)"







text \<open>
  The citations of a state of the inline pass are those of markers whose entries are
  usable.
\<close>

definition added_usable :: "jsval \<Rightarrow> inline_state \<Rightarrow> bool" where
  "added_usable pool st =
     (\<forall>c \<in> set (filteredCitations st).
        \<exists>l. is_marker l \<and> entry_usable pool l \<and> citation_id c = Str (citationIndex l))"



section \<open>enumerateCitations: the running counter\<close>

lemma enumerate_loop_length [simp]: "length (enumerate_loop m cs) = length cs"
  by (induction cs arbitrary: m) (simp_all add: Let_def)

lemma map_base_upd:
  "map_base (m(k \<mapsto> map_base m k + 1)) k' =
     (if same_group k k' then map_base m k' + 1 else map_base m k')"
  by (auto simp: map_base_def map_get_def same_group_def)

lemma enumerate_loop_Cons:
  "enumerate_loop m (c # cs) =
     c\<lparr>part_index := Num (int (map_base m (filepath c) + 1))\<rparr>
       # enumerate_loop (m(filepath c \<mapsto> map_base m (filepath c) + 1)) cs"
  by (simp add: Let_def map_base_def split: option.splits)

lemma enumerate_loop_nth:
  "i < length cs \<Longrightarrow>
   enumerate_loop m cs ! i =
     (cs ! i)\<lparr>part_index := Num (int (map_base m (filepath (cs ! i)) + running_count cs i))\<rparr>"
proof (induction cs arbitrary: m i)
  case Nil
  then show ?case by simp
next
  case (Cons c cs)
  show ?case
  proof (cases i)
    case 0
    then show ?thesis
      by (simp add: enumerate_loop_Cons running_count_def del: enumerate_loop.simps)
  next
    case (Suc j)
    with Cons.prems have j: "j < length cs" by simp
    have rc: "running_count (c # cs) (Suc j) =
        (if same_group (filepath c) (filepath (cs ! j)) then 1 else 0) + running_count cs j"
      by (simp add: running_count_def)
    define m' where "m' = m(filepath c \<mapsto> map_base m (filepath c) + 1)"
    have "enumerate_loop m (c # cs) ! i = enumerate_loop m' cs ! j"
      by (simp add: Suc enumerate_loop_Cons m'_def del: enumerate_loop.simps)
    also have "\<dots> = (cs ! j)\<lparr>part_index :=
        Num (int (map_base m' (filepath (cs ! j)) + running_count cs j))\<rparr>"
      by (rule Cons.IH [OF j])
    also have "map_base m' (filepath (cs ! j)) + running_count cs j =
        map_base m (filepath (cs ! j)) + running_count (c # cs) (Suc j)"
      unfolding m'_def map_base_upd rc by simp
    finally show ?thesis by (simp add: Suc)
  qed
qed

lemma enumerateCitations_length [simp]: "length (enumerateCitations cs) = length cs"
  by (simp add: enumerateCitations_def)

lemma enumerateCitations_nth:
  "i < length cs \<Longrightarrow>
   enumerateCitations cs ! i = (cs ! i)\<lparr>part_index := Num (int (running_count cs i))\<rparr>"
  by (simp add: enumerateCitations_def enumerate_loop_nth map_base_def map_get_def)

text \<open>
  C7. The enumeration keeps the list and its order and gives the citation at each
  position, as its \<^verbatim>\<open>part_index\<close>, the running counter of its filepath: one more than the
  number of earlier citations with that filepath, \<^verbatim>\<open>null\<close> being a key like any string.
  The value the field held before (the seed of the normalizer) does not enter the
  result.
\<close>

theorem enumerateCitations_running_counter:
  "length (enumerateCitations cs) = length cs \<and>
   (\<forall>i < length cs.
      enumerateCitations cs ! i = (cs ! i)\<lparr>part_index := Num (int (running_count cs i))\<rparr>)"
proof (intro conjI allI impI)
  show "length (enumerateCitations cs) = length cs"
    by (simp add: enumerateCitations_def)
next
  fix i assume "i < length cs"
  from enumerate_loop_nth [OF this, of Map.empty]
  have "enumerate_loop Map.empty cs ! i = (cs ! i)\<lparr>part_index :=
      Num (int (map_base Map.empty (filepath (cs ! i)) + running_count cs i))\<rparr>" .
  moreover have "map_base Map.empty k = 0" for k
    by (simp add: map_base_def map_get_def)
  ultimately show
    "enumerateCitations cs ! i = (cs ! i)\<lparr>part_index := Num (int (running_count cs i))\<rparr>"
    by (simp add: enumerateCitations_def)
qed

text \<open>
  The test of part_003: the sample citations have the filepaths \<^verbatim>\<open>file1.pdf\<close>,
  \<^verbatim>\<open>file1.pdf\<close>, \<^verbatim>\<open>file2.pdf\<close> and get the part indices 1, 2, 1, whatever seed they
  carry.
\<close>

theorem enumerateCitations_running_counter_witness:
  "length (enumerateCitations
      (map (\<lambda>v. (as_Citation v)\<lparr>part_index := Num 7\<rparr>) sampleCitations)) = 3 \<and>
   part_index (enumerateCitations
      (map (\<lambda>v. (as_Citation v)\<lparr>part_index := Num 7\<rparr>) sampleCitations) ! 0) = Num 1 \<and>
   part_index (enumerateCitations
      (map (\<lambda>v. (as_Citation v)\<lparr>part_index := Num 7\<rparr>) sampleCitations) ! 1) = Num 2 \<and>
   part_index (enumerateCitations
      (map (\<lambda>v. (as_Citation v)\<lparr>part_index := Num 7\<rparr>) sampleCitations) ! 2) = Num 1"
proof -
  define cs where "cs = map (\<lambda>v. (as_Citation v)\<lparr>part_index := Num 7\<rparr>) sampleCitations"
  have len: "length cs = 3"
    by (simp add: cs_def sampleCitations_def)
  from enumerateCitations_running_counter [of cs]
  have n: "length (enumerateCitations cs) = 3"
    and a: "\<And>i. i < 3 \<Longrightarrow>
      enumerateCitations cs ! i = (cs ! i)\<lparr>part_index := Num (int (running_count cs i))\<rparr>"
    unfolding len by blast+
  have rc: "running_count cs 0 = 1" "running_count cs 1 = 2" "running_count cs 2 = 1"
    by (simp_all add: cs_def running_count_def same_group_def sampleCitations_def
        sampleCitation_def as_Citation_def)
  have "part_index (enumerateCitations cs ! 0) = Num 1"
    using a [of 0] rc by simp
  moreover have "part_index (enumerateCitations cs ! 1) = Num 2"
    using a [of 1] rc by simp
  moreover have "part_index (enumerateCitations cs ! 2) = Num 1"
    using a [of 2] rc by simp
  ultimately show ?thesis using n unfolding cs_def by blast
qed

section \<open>parseAnswer: the validation of the answer text\<close>

text \<open>
  C4. When the answer text is absent or is not a string, \<^verbatim>\<open>parseAnswer\<close> returns
  \<^verbatim>\<open>null\<close>: no exception, and no result object, hence no citations, no text and no
  chart. This holds for the three versions of the file.
\<close>

theorem parseAnswer_not_string:
  "\<not> is_string (answer ans) \<Longrightarrow>
   parseAnswer_flat ans = Inr None \<and> parseAnswer parse ans = Inr None"
  by (cases "answer ans") (simp_all add: parseAnswer_flat_def parseAnswer_def)

theorem parseAnswer_not_string_witness:
  "\<not> is_string (Num 42) \<and>
   parseAnswer_flat \<lparr>answer = Num 42, citations = Arr sampleCitations,
       generated_chart = Null, choices = Undefined\<rparr> = Inr None \<and>
   parseAnswer (\<lambda>s. None) \<lparr>answer = Num 42, citations = Arr sampleCitations,
       generated_chart = Null, choices = Undefined\<rparr> = Inr None"
  using parseAnswer_not_string [of "\<lparr>answer = Num 42, citations = Arr sampleCitations,
       generated_chart = Null, choices = Undefined\<rparr>" "\<lambda>s. None"]
  by simp

section \<open>The inline pass on a typed pool\<close>

lemma inline_step_typed:
  assumes "list_all is_object cs"
  shows "\<exists>st'. inline_step (Arr cs) st link = Inr st'"
proof -
  have "is_object (cs ! n)" if "n < length cs" for n
    using assms that by (simp add: list_all_length)
  then show ?thesis
    by (auto simp: inline_step_def)
qed

lemma forEach_link_typed:
  assumes "list_all is_object cs"
  shows "\<exists>st'. forEach_link (Arr cs) links st = Inr st'"
proof (induction links arbitrary: st)
  case Nil
  show ?case by simp
next
  case (Cons l links)
  obtain st1 where "inline_step (Arr cs) st l = Inr st1"
    using inline_step_typed [OF assms] by blast
  then show ?case using Cons.IH [of st1] by simp
qed

lemma inline_pass_typed:
  "pool_typed pool \<Longrightarrow> \<exists>st. inline_pass pool text = Inr st"
  by (cases pool) (simp_all add: pool_typed_def inline_pass_def forEach_link_typed)

lemma parseAnswer_chart:
  assumes "parseAnswer parse ans = Inr (Some r) \<or> parseAnswer_flat ans = Inr (Some r)"
  shows "parsed_generated_chart r = generated_chart ans"
  using assms
  by (auto simp: parseAnswer_def parseAnswer_flat_def result_object_def
      split: jsval.splits sum.splits if_splits)

section \<open>The citation normalizers: metadata\<close>

lemma json_quote_page: "json_quote ''page'' = [CHR 0x22] @ ''page'' @ [CHR 0x22]"
  by (simp add: json_quote_def json_escape_def)

lemma metadata_of_cases:
  "metadata_of pf =
     (if \<not> nullish (get_prop pf ''page'') then Str (page_json (get_prop pf ''page''))
      else if \<not> nullish (get_prop pf ''metadata'') then get_prop pf ''metadata''
      else Null)"
proof (cases "nullish (get_prop pf ''page'')")
  case True
  then show ?thesis by (simp add: metadata_of_def coalesce_def)
next
  case False
  then have "get_prop pf ''page'' \<noteq> Undefined" by auto
  with False show ?thesis
    by (simp add: metadata_of_def page_json_def json_quote_page)
qed

text \<open>
  C8, as amended. Both normalizers compute \<^verbatim>\<open>metadata\<close> alike: the JSON text of an object
  with the one key \<^verbatim>\<open>page\<close> whenever the raw citation has a page (a value other than
  \<^verbatim>\<open>null\<close> and \<^verbatim>\<open>undefined\<close>), whether or not it also has an explicit metadata; else the
  explicit metadata, unchanged, when there is one; else \<^verbatim>\<open>null\<close>.
\<close>

theorem normalizer_metadata:
  "metadata (tool_citation i pf) = metadata (flat_citation i pf) \<and>
   metadata (tool_citation i pf) =
     (if \<not> nullish (get_prop pf ''page'') then Str (page_json (get_prop pf ''page''))
      else if \<not> nullish (get_prop pf ''metadata'') then get_prop pf ''metadata''
      else Null)"
  using metadata_of_cases [of pf] by (simp add: tool_citation_def flat_citation_def)

lemma show_nat_1: "show_nat (Suc 0) = ''1''"
  by (simp add: show_nat.simps)

text \<open>The scenario of the spec: the page 1 gives the metadata \<^verbatim>\<open>{"page":1}\<close>.\<close>

theorem normalizer_metadata_witness:
  "metadata (tool_citation 0
      (Obj [(''docId'', Str ''TI46''), (''page'', Num 1), (''source'', Str ''doc.pdf'')]))
   = Str (''{'' @ [CHR 0x22] @ ''page'' @ [CHR 0x22] @ '':1}'')"
proof -
  note normalizer_metadata [of 0
      "Obj [(''docId'', Str ''TI46''), (''page'', Num 1), (''source'', Str ''doc.pdf'')]"]
  from conjunct2 [OF this] show ?thesis
    by (simp add: page_json_def show_int_def show_nat_1)
qed

text \<open>
  C8 as stated fails on a raw citation with both a page and an explicit metadata
  string: the metadata does not pass through, the page is written instead.
\<close>

theorem normalizer_metadata_counterexample:
  "metadata (tool_citation 0 (Obj [(''page'', Num 1), (''metadata'', Str ''m'')])) \<noteq> Str ''m'' \<and>
   metadata (flat_citation 0 (Obj [(''page'', Num 1), (''metadata'', Str ''m'')])) \<noteq> Str ''m'' \<and>
   metadata (tool_citation 0 (Obj [(''page'', Num 1), (''metadata'', Str ''m'')]))
     = Str (''{'' @ [CHR 0x22] @ ''page'' @ [CHR 0x22] @ '':1}'')"
  by (simp add: tool_citation_def flat_citation_def metadata_of_def json_quote_page
      show_int_def show_nat_1)

section \<open>parsePlotFromMessage: the cases\<close>

lemma plot_not_tool:
  "get_prop msg ''role'' \<noteq> Str ''tool'' \<Longrightarrow> parsePlotFromMessage parse msg = Null"
  by (simp add: parsePlotFromMessage_def)

lemma plot_not_string:
  "\<not> is_string (get_prop msg ''content'') \<Longrightarrow> parsePlotFromMessage parse msg = Null"
  by (simp add: parsePlotFromMessage_def)

lemma plot_tool:
  "get_prop msg ''role'' = Str ''tool'' \<Longrightarrow> get_prop msg ''content'' = Str s \<Longrightarrow>
   parsePlotFromMessage parse msg = (case plot_try parse s of Inl e \<Rightarrow> Null | Inr v \<Rightarrow> v)"
  by (simp add: parsePlotFromMessage_def)

lemma plot_try_parse_fails: "parse s = None \<Longrightarrow> plot_try parse s = Inl SyntaxError"
  by (simp add: plot_try_def)

lemma plot_try_no_array:
  "parse s = Some ex \<Longrightarrow> \<forall>rs. get_prop ex ''all_exec_results'' \<noteq> Arr rs \<Longrightarrow>
   plot_try parse s = Inr Null \<or> (\<exists>e. plot_try parse s = Inl e)"
  by (cases "get_prop ex ''all_exec_results''")
     (auto simp: plot_try_def member_def Let_def split: sum.splits)

lemma plot_try_array:
  "parse s = Some ex \<Longrightarrow> get_prop ex ''all_exec_results'' = Arr rs \<Longrightarrow>
   plot_try parse s =
     (if rs = [] \<or> get_prop (last rs) ''code_exec_result'' = Undefined then Inr Null
      else case js_toString (get_prop (last rs) ''code_exec_result'') of
             Inl e \<Rightarrow> Inl e | Inr t \<Rightarrow> Inr (Str t))"
  by (cases ex) (auto simp: plot_try_def member_def Let_def)

text \<open>
  C9, as amended. \<^verbatim>\<open>parsePlotFromMessage\<close> returns a value in every case, no exception
  leaving it. It returns \<^verbatim>\<open>null\<close> when the message is not a tool message, when its
  content is not a string, when the content fails to parse, when the parsed content has
  no array of execution results or an empty one, and when the chart field of the last
  result is \<^verbatim>\<open>undefined\<close>. Otherwise it returns the \<^verbatim>\<open>toString()\<close> of that chart field, or
  \<^verbatim>\<open>null\<close> where \<^verbatim>\<open>toString()\<close> throws; this is the chart field itself when the field is a
  string. The result object of \<^verbatim>\<open>parseAnswer\<close> carries the raw \<^verbatim>\<open>generated_chart\<close> field of
  its payload.
\<close>

theorem parsePlotFromMessage_cases:
  "(get_prop msg ''role'' \<noteq> Str ''tool'' \<longrightarrow> parsePlotFromMessage parse msg = Null) \<and>
   (\<not> is_string (get_prop msg ''content'') \<longrightarrow> parsePlotFromMessage parse msg = Null) \<and>
   (get_prop msg ''content'' = Str s \<and> parse s = None \<longrightarrow>
      parsePlotFromMessage parse msg = Null) \<and>
   (get_prop msg ''content'' = Str s \<and> parse s = Some ex \<and>
      (\<forall>rs. get_prop ex ''all_exec_results'' \<noteq> Arr rs) \<longrightarrow>
      parsePlotFromMessage parse msg = Null) \<and>
   (get_prop msg ''content'' = Str s \<and> parse s = Some ex \<and>
      get_prop ex ''all_exec_results'' = Arr rs \<and>
      (rs = [] \<or> get_prop (last rs) ''code_exec_result'' = Undefined) \<longrightarrow>
      parsePlotFromMessage parse msg = Null) \<and>
   (get_prop msg ''role'' = Str ''tool'' \<and> get_prop msg ''content'' = Str s \<and>
      parse s = Some ex \<and> get_prop ex ''all_exec_results'' = Arr rs \<and> rs \<noteq> [] \<and>
      get_prop (last rs) ''code_exec_result'' \<noteq> Undefined \<longrightarrow>
      parsePlotFromMessage parse msg =
        (case js_toString (get_prop (last rs) ''code_exec_result'') of
           Inl e \<Rightarrow> Null | Inr t \<Rightarrow> Str t) \<and>
      (is_string (get_prop (last rs) ''code_exec_result'') \<longrightarrow>
         parsePlotFromMessage parse msg = get_prop (last rs) ''code_exec_result'')) \<and>
   (\<forall>r. parseAnswer parse ans = Inr (Some r) \<or> parseAnswer_flat ans = Inr (Some r) \<longrightarrow>
      parsed_generated_chart r = generated_chart ans)"
proof (intro conjI impI allI)
  show "parsePlotFromMessage parse msg = Null" if "get_prop msg ''role'' \<noteq> Str ''tool''"
    using that by (rule plot_not_tool)
  show "parsePlotFromMessage parse msg = Null" if "\<not> is_string (get_prop msg ''content'')"
    using that by (rule plot_not_string)
  show "parsePlotFromMessage parse msg = Null"
    if "get_prop msg ''content'' = Str s \<and> parse s = None"
    using that plot_try_parse_fails [of parse s]
    by (cases "get_prop msg ''role'' = Str ''tool''") (simp_all add: plot_tool plot_not_tool)
  show "parsePlotFromMessage parse msg = Null"
    if "get_prop msg ''content'' = Str s \<and> parse s = Some ex \<and>
      (\<forall>rs. get_prop ex ''all_exec_results'' \<noteq> Arr rs)"
    using that plot_try_no_array [of parse s ex]
    by (cases "get_prop msg ''role'' = Str ''tool''") (auto simp: plot_tool plot_not_tool)
  show "parsePlotFromMessage parse msg = Null"
    if "get_prop msg ''content'' = Str s \<and> parse s = Some ex \<and>
      get_prop ex ''all_exec_results'' = Arr rs \<and>
      (rs = [] \<or> get_prop (last rs) ''code_exec_result'' = Undefined)"
    using that plot_try_array [of parse s ex rs]
    by (cases "get_prop msg ''role'' = Str ''tool''") (auto simp: plot_tool plot_not_tool)
next
  assume a: "get_prop msg ''role'' = Str ''tool'' \<and> get_prop msg ''content'' = Str s \<and>
      parse s = Some ex \<and> get_prop ex ''all_exec_results'' = Arr rs \<and> rs \<noteq> [] \<and>
      get_prop (last rs) ''code_exec_result'' \<noteq> Undefined"
  then show r: "parsePlotFromMessage parse msg =
        (case js_toString (get_prop (last rs) ''code_exec_result'') of
           Inl e \<Rightarrow> Null | Inr t \<Rightarrow> Str t)"
    using plot_try_array [of parse s ex rs] by (auto simp: plot_tool split: sum.splits)
  assume "is_string (get_prop (last rs) ''code_exec_result'')"
  then show "parsePlotFromMessage parse msg = get_prop (last rs) ''code_exec_result''"
    unfolding r by (cases "get_prop (last rs) ''code_exec_result''") simp_all
next
  fix r assume "parseAnswer parse ans = Inr (Some r) \<or> parseAnswer_flat ans = Inr (Some r)"
  then show "parsed_generated_chart r = generated_chart ans"
    by (rule parseAnswer_chart)
qed

theorem parsePlotFromMessage_cases_witness:
  "parsePlotFromMessage chart_parse chart_message = Str ''iVBOR'' \<and>
   parsePlotFromMessage chart_parse
     (Obj [(''role'', Str ''assistant''), (''content'', Str ''chart'')]) = Null \<and>
   parsePlotFromMessage (\<lambda>s. None) chart_message = Null \<and>
   parsePlotFromMessage (\<lambda>s. Some (Obj [])) chart_message = Null \<and>
   parsePlotFromMessage (\<lambda>s. Some (Obj [(''all_exec_results'', Arr [])])) chart_message = Null \<and>
   parsePlotFromMessage chart_parse (Obj [(''role'', Str ''tool''), (''content'', Obj [])]) = Null"
proof -
  have "parsePlotFromMessage chart_parse chart_message = Str ''iVBOR''"
    using parsePlotFromMessage_cases [of chart_message chart_parse "''chart''"
        "Obj [(''all_exec_results'', Arr [Obj [(''code_exec_result'', Str ''iVBOR'')]])]"
        "[Obj [(''code_exec_result'', Str ''iVBOR'')]]"]
    by (simp add: chart_message_def chart_parse_def)
  moreover have "parsePlotFromMessage chart_parse
     (Obj [(''role'', Str ''assistant''), (''content'', Str ''chart'')]) = Null"
    using parsePlotFromMessage_cases [of
        "Obj [(''role'', Str ''assistant''), (''content'', Str ''chart'')]" chart_parse]
    by simp
  moreover have "parsePlotFromMessage (\<lambda>s. None) chart_message = Null"
    using parsePlotFromMessage_cases [of chart_message "\<lambda>s. None" "''chart''"]
    by (simp add: chart_message_def)
  moreover have "parsePlotFromMessage (\<lambda>s. Some (Obj [])) chart_message = Null"
    using parsePlotFromMessage_cases [of chart_message "\<lambda>s. Some (Obj [])" "''chart''" "Obj []"]
    by (simp add: chart_message_def)
  moreover have "parsePlotFromMessage (\<lambda>s. Some (Obj [(''all_exec_results'', Arr [])]))
      chart_message = Null"
    using parsePlotFromMessage_cases [of chart_message
        "\<lambda>s. Some (Obj [(''all_exec_results'', Arr [])])" "''chart''"
        "Obj [(''all_exec_results'', Arr [])]" "[]"]
    by (simp add: chart_message_def)
  moreover have "parsePlotFromMessage chart_parse
      (Obj [(''role'', Str ''tool''), (''content'', Obj [])]) = Null"
    using parsePlotFromMessage_cases [of "Obj [(''role'', Str ''tool''), (''content'', Obj [])]"
        chart_parse]
    by simp
  ultimately show ?thesis by simp
qed

text \<open>
  C9 as stated fails on a chart field that is not a string: for the number 5 the result
  is the string \<^verbatim>\<open>5\<close>, which is not the chart field.
\<close>

theorem parsePlotFromMessage_counterexample:
  "parsePlotFromMessage numeric_chart_parse chart_message = Str ''5'' \<and>
   parsePlotFromMessage numeric_chart_parse chart_message
     \<noteq> get_prop (last [Obj [(''code_exec_result'', Num 5)]]) ''code_exec_result''"
  by (simp add: parsePlotFromMessage_def chart_message_def numeric_chart_parse_def plot_try_def
      member_def show_int_def show_nat.simps [of 5])

section \<open>The inline pass in closed form\<close>

lemma citationIndex_marker: "citationIndex (''[doc'' @ ds @ '']'') = ds"
  by (simp add: citationIndex_def slice_def lengthDocN_def)

lemma match_at_marker:
  assumes "match_at s = Some m"
  shows "is_marker m"
proof -
  from assms obtain ds where "m = ''[doc'' @ ds @ '']''"
    by (auto simp: match_at_def Let_def split: if_splits)
  then show ?thesis
    by (simp only: is_marker_def citationIndex_marker)
qed

lemma match_all_markers: "l \<in> set (match_all s) \<Longrightarrow> is_marker l"
proof (induction s rule: match_all.induct)
  case (1 s)
  show ?case
  proof (cases "s = []")
    case True
    with "1.prems" show ?thesis by (simp add: match_all.simps)
  next
    case False
    show ?thesis
    proof (cases "match_at s")
      case None
      with False "1.prems" "1.IH"(1) [OF False None] show ?thesis
        by (simp add: match_all.simps [of s])
    next
      case (Some m)
      with False "1.prems" "1.IH"(2) [OF False Some] match_at_marker [OF Some] show ?thesis
        by (auto simp: match_all.simps [of s])
    qed
  qed
qed

lemma is_marker_inj:
  "is_marker l \<Longrightarrow> is_marker l' \<Longrightarrow> citationIndex l = citationIndex l' \<Longrightarrow> l = l'"
  by (metis is_marker_def)

lemma first_seen_set [simp]: "set (first_seen xs) = set xs"
  by (induction xs) auto

lemma first_seen_distinct [simp]: "distinct (first_seen xs)"
  by (induction xs) auto

lemma inline_step_result:
  assumes "inline_step pool st l = Inr st1"
  shows "st1 =
     (if Str (citationIndex l) \<notin> citation_id ` set (filteredCitations st) \<and> resolvable pool l
      then \<lparr> answerText = replaceAll l (placeholder (citationReindex st + 1)) (answerText st),
             citationReindex = citationReindex st + 1,
             filteredCitations = filteredCitations st
               @ [inline_citation pool (citationReindex st + 1) l] \<rparr>
      else st)"
proof -
  obtain v where v: "index_prop pool (int (Number_of (citationIndex l)) - 1) = Inr v"
    using assms by (auto simp: inline_step_def split: sum.splits)
  have f: "(find (\<lambda>c. citation_id c = Str (citationIndex l)) (filteredCitations st) = None)
      = (Str (citationIndex l) \<notin> citation_id ` set (filteredCitations st))"
    unfolding find_None_iff by force
  show ?thesis
    using assms v
    by (auto simp: inline_step_def f resolvable_def pool_entry_def inline_citation_def
        split: if_splits)
qed

lemma forEach_link_result:
  assumes "forEach_link pool links st = Inr st'" and "\<forall>l \<in> set links. is_marker l"
  shows "st' = \<lparr> answerText = replace_links (citationReindex st + 1) (pending pool st links) (answerText st),
               citationReindex = citationReindex st + length (pending pool st links),
               filteredCitations = filteredCitations st
                 @ map (\<lambda>(k, l). inline_citation pool k l)
                     (number_from (citationReindex st + 1) (pending pool st links)) \<rparr>"
  using assms
proof (induction links arbitrary: st)
  case Nil
  then show ?case by (simp add: pending_def)
next
  case (Cons l links)
  from Cons.prems(1) obtain st1 where
    s1: "inline_step pool st l = Inr st1" and r: "forEach_link pool links st1 = Inr st'"
    by (auto split: sum.splits)
  from Cons.prems(2) have m: "is_marker l" "\<forall>l \<in> set links. is_marker l" by simp_all
  note ih = Cons.IH [OF r m(2)]
  let ?P = "\<lambda>x. resolvable pool x \<and> Str (citationIndex x) \<notin> citation_id ` set (filteredCitations st)"
  show ?case
  proof (cases "?P l")
    case True
    with inline_step_result [OF s1] have st1:
      "st1 = \<lparr> answerText = replaceAll l (placeholder (citationReindex st + 1)) (answerText st),
             citationReindex = citationReindex st + 1,
             filteredCitations = filteredCitations st
               @ [inline_citation pool (citationReindex st + 1) l] \<rparr>"
      by simp
    have eq: "(resolvable pool x \<and> Str (citationIndex x) \<notin> citation_id ` set (filteredCitations st1))
          = (x \<noteq> l \<and> ?P x)" if "x \<in> set (first_seen links)" for x
    proof -
      from that have "is_marker x" using m(2) by simp
      then have "(citationIndex x = citationIndex l) = (x = l)"
        using is_marker_inj [OF _ m(1)] by auto
      then show ?thesis
        by (auto simp: st1 inline_citation_def)
    qed
    have "pending pool st1 links = filter ?P (filter (\<lambda>y. y \<noteq> l) (first_seen links))"
      unfolding pending_def filter_filter by (rule filter_cong [OF refl]) (rule eq)
    with True have p: "pending pool st (l # links) = l # pending pool st1 links"
      by (simp add: pending_def)
    show ?thesis
      unfolding ih p by (simp add: st1)
  next
    case False
    with inline_step_result [OF s1] have st1: "st1 = st" by auto
    have "filter ?P (filter (\<lambda>y. y \<noteq> l) (first_seen links)) = filter ?P (first_seen links)"
      unfolding filter_filter using False by (intro filter_cong) auto
    with False have p: "pending pool st (l # links) = pending pool st links"
      by (simp add: pending_def)
    show ?thesis
      unfolding ih p st1 ..
  qed
qed

lemma inline_pass_result:
  assumes "inline_pass pool text = Inr st"
  shows "st = \<lparr> answerText = replace_links 1 (inline_links pool text) text,
               citationReindex = length (inline_links pool text),
               filteredCitations = map (\<lambda>(k, l). inline_citation pool k l)
                     (number_from 1 (inline_links pool text)) \<rparr>"
proof -
  have "pending pool \<lparr>answerText = text, citationReindex = 0, filteredCitations = []\<rparr>
      (match_all text) = inline_links pool text"
    by (simp add: pending_def inline_links_def)
  with forEach_link_result [OF assms [unfolded inline_pass_def]] match_all_markers
  show ?thesis by simp
qed

section \<open>parseAnswer: the citations of the result\<close>

lemma is_object_truthy: "is_object v \<Longrightarrow> truthy v"
  by (cases v) simp_all

lemma resolvable_typed:
  assumes "list_all is_object cs"
  shows "resolvable (Arr cs) l =
     (0 < Number_of (citationIndex l) \<and> Number_of (citationIndex l) \<le> length cs)"
proof (cases "0 < Number_of (citationIndex l) \<and> Number_of (citationIndex l) \<le> length cs")
  case True
  then have "nat (int (Number_of (citationIndex l)) - 1) < length cs" by auto
  then have "is_object (cs ! nat (int (Number_of (citationIndex l)) - 1))"
    using assms by (simp add: list_all_length)
  with True show ?thesis
    by (auto simp: resolvable_def pool_entry_def is_object_truthy)
next
  case False
  then show ?thesis
    by (auto simp: resolvable_def pool_entry_def)
qed

lemma number_from_length [simp]: "length (number_from n xs) = length xs"
  by (induction xs arbitrary: n) simp_all

lemma number_from_Nil_iff [simp]: "(number_from n xs = []) = (xs = [])"
  by (cases xs) simp_all

lemma number_from_map_snd [simp]: "map snd (number_from n xs) = xs"
  by (induction xs arbitrary: n) simp_all

lemma number_from_map_fst: "map fst (number_from n xs) = [n..<n + length xs]"
  by (induction xs arbitrary: n) (simp_all add: upt_rec)

lemma enumerateCitations_map_citation_id [simp]:
  "map citation_id (enumerateCitations cs) = map citation_id cs"
  by (rule nth_equalityI) (simp_all add: enumerateCitations_nth)

lemma enumerateCitations_map_reindex_id [simp]:
  "map reindex_id (enumerateCitations cs) = map reindex_id cs"
  by (rule nth_equalityI) (simp_all add: enumerateCitations_nth)

lemma enumerateCitations_map_filepath [simp]:
  "map filepath (enumerateCitations cs) = map filepath cs"
  by (rule nth_equalityI) (simp_all add: enumerateCitations_nth)

lemma enumerateCitations_Nil_iff [simp]: "(enumerateCitations cs = []) = (cs = [])"
  using enumerateCitations_length [of cs] by (metis length_0_conv)

lemma inline_citations_ids:
  "map citation_id (map (\<lambda>(k, l). inline_citation pool k l) (number_from n links))
     = map (\<lambda>l. Str (citationIndex l)) links"
  by (induction links arbitrary: n) (simp_all add: inline_citation_def)

lemma inline_citations_reindex:
  "map reindex_id (map (\<lambda>(k, l). inline_citation pool k l) (number_from n links))
     = map (\<lambda>k. Str (show_nat k)) [n..<n + length links]"
  by (induction links arbitrary: n) (simp_all add: inline_citation_def upt_rec)

lemma reindex_loop_length [simp]: "length (reindex_loop i cs) = length cs"
  by (induction cs arbitrary: i) simp_all

lemma reindex_loop_reindex:
  "map reindex_id (reindex_loop i cs) = map (\<lambda>k. Str (show_nat k)) [i + 1..<i + 1 + length cs]"
  by (induction cs arbitrary: i) (simp_all add: upt_rec)

lemma reindex_loop_citation_id [simp]:
  "map citation_id (reindex_loop i cs) = map citation_id cs"
  by (induction cs arbitrary: i) simp_all

lemma use_fallback_Nil: "use_fallback [] pf = reindex_loop 0 pf"
  by (cases pf) (simp_all add: use_fallback_def)

lemma inline_links_distinct [simp]: "distinct (inline_links pool text)"
  by (simp add: inline_links_def)

lemma inline_links_set:
  "set (inline_links pool text) = {l \<in> set (match_all text). resolvable pool l}"
  by (auto simp: inline_links_def)

lemma inline_links_markers: "l \<in> set (inline_links pool text) \<Longrightarrow> is_marker l"
  by (auto simp: inline_links_set intro: match_all_markers)

lemma inline_ids_distinct:
  "distinct (map (\<lambda>l. Str (citationIndex l)) (inline_links pool text))"
  unfolding distinct_map
  by (auto intro!: inj_onI dest: inline_links_markers is_marker_inj)

lemma result_of_inline_pass:
  assumes "inline_pass (citations ans) text = Inr st"
    and "inline_links (citations ans) text \<noteq> []"
  shows "filteredCitations st \<noteq> []"
    and "result_object ans (answerText st) (filteredCitations st) = inline_result ans text"
proof -
  note st = inline_pass_result [OF assms(1)]
  show "filteredCitations st \<noteq> []"
    by (subst st) (simp add: assms(2))
  show "result_object ans (answerText st) (filteredCitations st) = inline_result ans text"
    unfolding result_object_def inline_result_def
    by (subst (1 2) st) simp
qed

lemma result_of_empty_pass:
  assumes "inline_pass (citations ans) text = Inr st"
    and "inline_links (citations ans) text = []"
  shows "filteredCitations st = []" and "answerText st = text"
  by (subst inline_pass_result [OF assms(1)], simp add: assms(2))+

lemma parseAnswer_inline:
  assumes "answer ans = Str text"
    and "inline_pass (citations ans) text = Inr st"
    and "inline_links (citations ans) text \<noteq> []"
  shows "parseAnswer parse ans = Inr (Some (inline_result ans text))"
    and "parseAnswer_flat ans = Inr (Some (inline_result ans text))"
  using assms(1,2) result_of_inline_pass [OF assms(2,3)]
  by (simp_all add: parseAnswer_def parseAnswer_flat_def)

lemma parseAnswer_fallback:
  assumes "answer ans = Str text"
    and "inline_pass (citations ans) text = Inr st"
    and "inline_links (citations ans) text = []"
  shows "parseAnswer parse ans =
           (case extractPromptFlowCitations parse ans of
              Inl e \<Rightarrow> Inl e
            | Inr pf \<Rightarrow> Inr (Some (result_object ans text (reindex_loop 0 pf))))"
    and "parseAnswer_flat ans =
           Inr (Some (result_object ans text (reindex_loop 0 (extractPromptFlowCitations_flat ans))))"
  using assms(1,2) result_of_empty_pass [OF assms(2,3)]
  by (simp_all add: parseAnswer_def parseAnswer_flat_def use_fallback_Nil split: sum.splits)

lemma parseAnswer_pass:
  assumes "answer ans = Str text"
    and "parseAnswer parse ans = Inr (Some r) \<or> parseAnswer_flat ans = Inr (Some r)"
  shows "\<exists>st. inline_pass (citations ans) text = Inr st"
  using assms
  by (auto simp: parseAnswer_def parseAnswer_flat_def split: sum.splits)

section \<open>Precedence of the inline markers\<close>

text \<open>
  C1. When the answer text contains a marker whose index names an entry of the (typed)
  citation pool, every version of \<^verbatim>\<open>parseAnswer\<close> returns the same result, made of the
  inline citations alone: their ids are the indices of the resolvable markers. The result
  is the same for every \<^verbatim>\<open>choices\<close> value and every \<^verbatim>\<open>JSON.parse\<close>, and the same in the flat
  version, so no fallback extractor contributes to it, whatever the tool messages hold.
\<close>

theorem inline_precedence:
  assumes "answer ans = Str text"
    and "citations ans = Arr cs" and "list_all is_object cs"
    and "link \<in> set (match_all text)"
    and "0 < Number_of (citationIndex link)" and "Number_of (citationIndex link) \<le> length cs"
  shows "parseAnswer parse ans = Inr (Some (inline_result ans text)) \<and>
         parseAnswer_flat ans = Inr (Some (inline_result ans text)) \<and>
         (\<forall>parse' ch. parseAnswer parse' (ans\<lparr>choices := ch\<rparr>) = Inr (Some (inline_result ans text))) \<and>
         parsed_citations (inline_result ans text) \<noteq> [] \<and>
         map citation_id (parsed_citations (inline_result ans text))
           = map (\<lambda>l. Str (citationIndex l)) (inline_links (citations ans) text)"
proof -
  have typed: "pool_typed (citations ans)"
    using assms(2,3) by (simp add: pool_typed_def)
  then obtain st where st: "inline_pass (citations ans) text = Inr st"
    using inline_pass_typed by blast
  have "resolvable (citations ans) link"
    using assms(2,3,5,6) by (simp add: resolvable_typed)
  with assms(4) have "link \<in> set (inline_links (citations ans) text)"
    by (simp add: inline_links_set)
  then have ne: "inline_links (citations ans) text \<noteq> []" by auto
  have r: "inline_result (ans\<lparr>choices := ch\<rparr>) text = inline_result ans text" for ch
    by (simp add: inline_result_def)
  have "parseAnswer parse' (ans\<lparr>choices := ch\<rparr>) = Inr (Some (inline_result ans text))"
    for parse' ch
  proof -
    have "parseAnswer parse' (ans\<lparr>choices := ch\<rparr>)
        = Inr (Some (inline_result (ans\<lparr>choices := ch\<rparr>) text))"
      by (rule parseAnswer_inline) (use assms(1) st ne in simp_all)
    then show ?thesis by (simp add: r)
  qed
  moreover have "parsed_citations (inline_result ans text) \<noteq> []"
    using ne by (simp add: inline_result_def)
  moreover have "map citation_id (parsed_citations (inline_result ans text))
           = map (\<lambda>l. Str (citationIndex l)) (inline_links (citations ans) text)"
    by (simp add: inline_result_def inline_citations_ids del: map_map)
  ultimately show ?thesis
    using parseAnswer_inline [OF assms(1) st ne] by blast
qed

text \<open>
  The test of part_003: the tool message alone would give a citation, and the result
  has the one inline citation, with id \<^verbatim>\<open>1\<close> and the filepath of the first sample.
\<close>

lemma mixed_links:
  "inline_links (Arr sampleCitations) ''This has inline citation [doc1].'' = [''[doc1]'']"
  by code_simp

lemma mixed_match: "match_all ''This has inline citation [doc1].'' = [''[doc1]'']"
  by code_simp

lemma doc1_index: "Number_of (citationIndex ''[doc1]'') = 1"
  by code_simp

lemma mixed_result_citations:
  "map filepath (parsed_citations (inline_result mixedResponse ''This has inline citation [doc1].''))
     = [Str ''file1.pdf'']"
  by code_simp

theorem inline_precedence_witness:
  "(\<exists>pf. extractPromptFlowCitations tool_parse mixedResponse = Inr pf \<and> pf \<noteq> []) \<and>
   (\<exists>r. parseAnswer tool_parse mixedResponse = Inr (Some r) \<and>
        map citation_id (parsed_citations r) = [Str ''1''] \<and>
        map filepath (parsed_citations r) = [Str ''file1.pdf''])"
proof -
  have "\<exists>pf. extractPromptFlowCitations tool_parse mixedResponse = Inr pf \<and> pf \<noteq> []"
    by (simp add: extractPromptFlowCitations_def mixedResponse_def choice_citations_def
        message_citations_def tool_parse_def template_def tool_citation_def coalesce_def)
  moreover
  have "list_all is_object sampleCitations"
    by (simp add: sampleCitations_def sampleCitation_def)
  from inline_precedence [of mixedResponse "''This has inline citation [doc1].''"
      sampleCitations "''[doc1]''" tool_parse, OF _ _ this]
  have "parseAnswer tool_parse mixedResponse
      = Inr (Some (inline_result mixedResponse ''This has inline citation [doc1].''))"
    and "map citation_id
        (parsed_citations (inline_result mixedResponse ''This has inline citation [doc1].''))
      = map (\<lambda>l. Str (citationIndex l))
          (inline_links (citations mixedResponse) ''This has inline citation [doc1].'')"
    by (simp_all add: mixedResponse_def mixed_match doc1_index sampleCitations_def)
  moreover have "citationIndex ''[doc1]'' = ''1''" by code_simp
  ultimately show ?thesis
    using mixed_result_citations by (simp add: mixedResponse_def mixed_links)
qed

section \<open>The invariant of the citation list\<close>

lemma parseAnswer_result:
  assumes "answer ans = Str text"
    and "parseAnswer parse ans = Inr (Some r) \<or> parseAnswer_flat ans = Inr (Some r)"
  shows "inline_links (citations ans) text \<noteq> [] \<and> r = inline_result ans text \<or>
         inline_links (citations ans) text = [] \<and> markdownFormatText r = text \<and>
           (\<exists>pf. parsed_citations r = enumerateCitations (reindex_loop 0 pf))"
proof -
  from parseAnswer_pass [OF assms] obtain st where st: "inline_pass (citations ans) text = Inr st"
    by blast
  show ?thesis
  proof (cases "inline_links (citations ans) text = []")
    case False
    then show ?thesis
      using assms(2) parseAnswer_inline [OF assms(1) st False] by auto
  next
    case True
    from assms(2) have "\<exists>pf. r = result_object ans text (reindex_loop 0 pf)"
      unfolding parseAnswer_fallback [OF assms(1) st True]
      by (auto split: sum.splits)
    then show ?thesis
      using True by (auto simp: result_object_def)
  qed
qed

lemma inline_links_card:
  "length (inline_links pool text) = card {l \<in> set (match_all text). resolvable pool l}"
  using distinct_card [OF inline_links_distinct, of pool "text"]
  by (simp add: inline_links_set)

lemma upt_Suc_shift: "[1..<1 + n] = [1..<Suc n]"
  by simp

text \<open>
  C2, as amended. In every result \<^verbatim>\<open>parseAnswer\<close> returns for a string answer, the
  \<^verbatim>\<open>reindex_id\<close> values are the strings of 1 to k in list order, k the length of the list.
  When the inline pass added citations, their ids are pairwise distinct: they are the
  indices, as written, of the distinct resolvable markers of the text in the order of
  their first occurrence, and k is the number of those markers. The ids of fallback
  citations are the \<^verbatim>\<open>docId\<close> / \<^verbatim>\<open>docID\<close> values of the backend and are not claimed
  distinct.
\<close>

theorem citation_list_invariant:
  assumes "answer ans = Str text"
    and "parseAnswer parse ans = Inr (Some r) \<or> parseAnswer_flat ans = Inr (Some r)"
  shows "map reindex_id (parsed_citations r)
           = map (\<lambda>k. Str (show_nat k)) [1..<Suc (length (parsed_citations r))] \<and>
         (inline_links (citations ans) text \<noteq> [] \<longrightarrow>
            distinct (map citation_id (parsed_citations r)) \<and>
            map citation_id (parsed_citations r)
              = map (\<lambda>l. Str (citationIndex l)) (inline_links (citations ans) text) \<and>
            length (parsed_citations r)
              = card {l \<in> set (match_all text). resolvable (citations ans) l})"
proof -
  from parseAnswer_result [OF assms] show ?thesis
  proof (elim disjE conjE exE)
    assume ne: "inline_links (citations ans) text \<noteq> []" and r: "r = inline_result ans text"
    have ids: "map citation_id (parsed_citations r)
        = map (\<lambda>l. Str (citationIndex l)) (inline_links (citations ans) text)"
      by (simp add: r inline_result_def inline_citations_ids del: map_map)
    have len: "length (parsed_citations r) = length (inline_links (citations ans) text)"
      by (simp add: r inline_result_def)
    have "map reindex_id (parsed_citations r)
        = map (\<lambda>k. Str (show_nat k)) [1..<1 + length (inline_links (citations ans) text)]"
      by (simp add: r inline_result_def inline_citations_reindex del: map_map)
    then show ?thesis
      using ids len inline_ids_distinct [of "citations ans" "text"]
        inline_links_card [of "citations ans" "text"]
      by simp
  next
    fix pf
    assume e: "inline_links (citations ans) text = []"
      and r: "parsed_citations r = enumerateCitations (reindex_loop 0 pf)"
    have "map reindex_id (parsed_citations r) = map (\<lambda>k. Str (show_nat k)) [1..<1 + length pf]"
      using reindex_loop_reindex [of 0 pf] by (simp add: r)
    moreover have "length (parsed_citations r) = length pf"
      by (simp add: r)
    ultimately show ?thesis using e by simp
  qed
qed

lemma sample_links:
  "inline_links (Arr sampleCitations)
     ''This is an example answer with citations [doc1] and [doc2].'' = [''[doc1]'', ''[doc2]'']"
  by code_simp

lemma sample_indices: "citationIndex ''[doc1]'' = ''1''" "citationIndex ''[doc2]'' = ''2''"
  by code_simp+

lemma show_nat_12: "show_nat (Suc 0) = ''1''" "show_nat (Suc (Suc 0)) = ''2''"
  by (simp_all add: show_nat.simps)

theorem citation_list_invariant_witness:
  "\<exists>r. parseAnswer (\<lambda>s. None) sampleAnswer = Inr (Some r) \<and>
       map reindex_id (parsed_citations r) = [Str ''1'', Str ''2''] \<and>
       map citation_id (parsed_citations r) = [Str ''1'', Str ''2''] \<and>
       distinct (map citation_id (parsed_citations r))"
proof -
  have "pool_typed (citations sampleAnswer)"
    by (simp add: sampleAnswer_def pool_typed_def sampleCitations_def sampleCitation_def)
  then obtain st where "inline_pass (citations sampleAnswer)
      ''This is an example answer with citations [doc1] and [doc2].'' = Inr st"
    using inline_pass_typed by blast
  then obtain r where r: "parseAnswer (\<lambda>s. None) sampleAnswer = Inr (Some r)"
    by (cases "filteredCitations st = []")
       (simp_all add: parseAnswer_def sampleAnswer_def extractPromptFlowCitations_def)
  have links: "inline_links (citations sampleAnswer)
     ''This is an example answer with citations [doc1] and [doc2].'' = [''[doc1]'', ''[doc2]'']"
    using sample_links by (simp add: sampleAnswer_def)
  have ans: "answer sampleAnswer
      = Str ''This is an example answer with citations [doc1] and [doc2].''"
    by (simp add: sampleAnswer_def)
  note t = citation_list_invariant [OF ans disjI1 [OF r]]
  have ne: "inline_links (citations sampleAnswer)
     ''This is an example answer with citations [doc1] and [doc2].'' \<noteq> []"
    by (simp add: links)
  from t have a: "map reindex_id (parsed_citations r)
           = map (\<lambda>k. Str (show_nat k)) [1..<Suc (length (parsed_citations r))]"
    by (rule conjunct1)
  from t ne have b: "distinct (map citation_id (parsed_citations r))"
    and c0: "map citation_id (parsed_citations r) = map (\<lambda>l. Str (citationIndex l))
        (inline_links (citations sampleAnswer)
          ''This is an example answer with citations [doc1] and [doc2].'')"
    by blast+
  from c0 have c: "map citation_id (parsed_citations r) = [Str ''1'', Str ''2'']"
    unfolding links by (simp add: sample_indices)
  from c have "length (parsed_citations r) = 2"
    by (metis length_map length_Cons list.size(3) One_nat_def Suc_1)
  with a have d: "map reindex_id (parsed_citations r) = [Str ''1'', Str ''2'']"
    by (simp add: upt_rec show_nat_12)
  show ?thesis
    by (rule exI [of _ r]) (simp add: r b c d)
qed

text \<open>
  C2 as stated fails in the fallback: a tool message citing the document \<^verbatim>\<open>TI46\<close> twice
  gives two citations with the id \<^verbatim>\<open>TI46\<close>.
\<close>

theorem citation_list_invariant_counterexample:
  "(case parseAnswer duplicate_parse duplicateResponse of
      Inr (Some r) \<Rightarrow> map citation_id (parsed_citations r)
    | _ \<Rightarrow> []) = [Str ''TI46'', Str ''TI46'']"
  by code_simp

text \<open>
  A marker index is the digits as written: \<^verbatim>\<open>[doc1]\<close> and \<^verbatim>\<open>[doc01]\<close> are two markers,
  each with a citation, both cloned from the first entry of the pool.
\<close>

lemma leading_zero_markers:
  "(case parseAnswer (\<lambda>s. None)
           \<lparr>answer = Str ''[doc1] and [doc01]'', citations = Arr sampleCitations,
            generated_chart = Null, choices = Undefined\<rparr> of
      Inr (Some r) \<Rightarrow> map (\<lambda>c. (citation_id c, reindex_id c, filepath c)) (parsed_citations r)
    | _ \<Rightarrow> [])
   = [(Str ''1'', Str ''1'', Str ''file1.pdf''), (Str ''01'', Str ''2'', Str ''file1.pdf'')]"
  by code_simp

section \<open>The markers of a text after replacement\<close>

lemma wf_markerI:
  "ds \<noteq> [] \<Longrightarrow> length ds \<le> 3 \<Longrightarrow> list_all is_digit ds \<Longrightarrow> wf_marker (''[doc'' @ ds @ '']'')"
  by (simp only: wf_marker_def is_marker_def citationIndex_marker) simp

lemma wf_markerE:
  assumes "wf_marker l"
  obtains ds where "l = ''[doc'' @ ds @ '']''" "ds \<noteq> []" "length ds \<le> 3" "list_all is_digit ds"
  using assms unfolding wf_marker_def is_marker_def by blast

lemma not_digit_bracket: "\<not> is_digit CHR '']''"
  by (simp add: is_digit_def)

lemma match_at_append:
  assumes "wf_marker m"
  shows "match_at (m @ t) = Some m"
proof -
  from assms obtain ds where m: "m = ''[doc'' @ ds @ '']''" and ds: "ds \<noteq> []" "length ds \<le> 3"
    "list_all is_digit ds"
    by (rule wf_markerE)
  have "take 3 (ds @ '']'' @ t) = ds @ take (3 - length ds) ('']'' @ t)"
    using ds(2) by simp
  moreover have "takeWhile is_digit (take (3 - length ds) ('']'' @ t)) = []"
    by (cases "3 - length ds") (simp_all add: not_digit_bracket)
  ultimately have tw: "takeWhile is_digit (take 3 (ds @ '']'' @ t)) = ds"
    using ds(3) by (simp add: takeWhile_append2 list_all_iff)
  have d4: "drop 4 (m @ t) = ds @ '']'' @ t" and t4: "take 4 (m @ t) = ''[doc''"
    by (simp_all add: m)
  have "drop (4 + length ds) (m @ t) = drop (length ds) (drop 4 (m @ t))"
    by (metis drop_drop add.commute)
  then have "take 1 (drop (4 + length ds) (m @ t)) = '']''"
    unfolding d4 by simp
  then show ?thesis
    unfolding match_at_def t4 d4 tw Let_def using ds(1) m by simp
qed

lemma match_at_wf:
  assumes "match_at x = Some m"
  shows "wf_marker m" and "take (length m) x = m"
proof -
  define ds where "ds = takeWhile is_digit (take 3 (drop 4 x))"
  from assms have t4: "take 4 x = ''[doc''" and ne: "ds \<noteq> []"
    and br: "take 1 (drop (4 + length ds) x) = '']''" and m: "m = ''[doc'' @ ds @ '']''"
    by (auto simp: match_at_def Let_def ds_def split: if_splits)
  have len: "length ds \<le> 3"
    unfolding ds_def by (rule order_trans [OF length_takeWhile_le]) simp
  have dig: "list_all is_digit ds"
    unfolding ds_def list_all_iff by (auto dest: set_takeWhileD)
  show "wf_marker m"
    unfolding m using ne len dig by (rule wf_markerI)
  have "ds = take (length ds) (take 3 (drop 4 x))"
    unfolding ds_def by (rule takeWhile_eq_take)
  also have "\<dots> = take (length ds) (drop 4 x)"
    using len by (simp add: min_def)
  finally have pd: "take (length ds) (drop 4 x) = ds" by simp
  obtain rest where rest: "drop (4 + length ds) x = CHR '']'' # rest"
    using br by (cases "drop (4 + length ds) x") simp_all
  have "x = take 4 x @ drop 4 x" by simp
  also have "drop 4 x = take (length ds) (drop 4 x) @ drop (length ds) (drop 4 x)"
    by (rule append_take_drop_id [symmetric])
  also have "drop (length ds) (drop 4 x) = drop (4 + length ds) x"
    by (metis drop_drop add.commute)
  finally have "x = m @ rest"
    unfolding t4 pd rest m by simp
  then show "take (length m) x = m" by simp
qed

lemma is_digit_not_special: "is_digit c \<Longrightarrow> c \<noteq> CHR ''['' \<and> c \<noteq> CHR '' ''"
  by (auto simp: is_digit_def)

lemma wf_marker_shape:
  assumes "wf_marker m"
  shows "m \<noteq> []" and "hd m = CHR ''[''" and "CHR ''['' \<notin> set (tl m)" and "CHR '' '' \<notin> set m"
proof -
  from assms obtain ds where m: "m = ''[doc'' @ ds @ '']''" and "list_all is_digit ds"
    by (rule wf_markerE)
  then have d: "CHR ''['' \<notin> set ds" "CHR '' '' \<notin> set ds"
    by (auto simp: list_all_iff dest: is_digit_not_special)
  show "m \<noteq> []" "hd m = CHR ''[''" by (simp_all add: m)
  show "CHR ''['' \<notin> set (tl m)" "CHR '' '' \<notin> set m"
    using d by (simp_all add: m)
qed

lemma wf_marker_unique:
  assumes "wf_marker m" "wf_marker l" "take (length m) x = m" "take (length l) x = l"
  shows "m = l"
proof -
  have "x = m @ drop (length m) x" "x = l @ drop (length l) x"
    using assms(3,4) by (metis append_take_drop_id)+
  then have "match_at x = Some m" "match_at x = Some l"
    using match_at_append [OF assms(1)] match_at_append [OF assms(2)] by metis+
  then show ?thesis by simp
qed

lemma match_all_wf: "l \<in> set (match_all s) \<Longrightarrow> wf_marker l"
proof (induction s rule: match_all.induct)
  case (1 s)
  show ?case
  proof (cases "s = []")
    case True
    with "1.prems" show ?thesis by (simp add: match_all.simps)
  next
    case False
    show ?thesis
    proof (cases "match_at s")
      case None
      with False "1.prems" "1.IH"(1) [OF False None] show ?thesis
        by (simp add: match_all.simps [of s])
    next
      case (Some m)
      with False "1.prems" "1.IH"(2) [OF False Some] match_at_wf(1) [OF Some] show ?thesis
        by (auto simp: match_all.simps [of s])
    qed
  qed
qed

lemma match_at_not_bracket: "c \<noteq> CHR ''['' \<Longrightarrow> match_at (c # t) = None"
  by (simp add: match_at_def)

lemma match_all_skip: "match_at (c # t) = None \<Longrightarrow> match_all (c # t) = match_all t"
  by (simp add: match_all.simps [of "c # t"])

lemma match_all_no_bracket: "CHR ''['' \<notin> set r \<Longrightarrow> match_all (r @ t) = match_all t"
proof (induction r)
  case Nil
  show ?case by simp
next
  case (Cons a r)
  then have "a \<noteq> CHR ''[''" by auto
  then have "match_all (a # r @ t) = match_all (r @ t)"
    by (intro match_all_skip match_at_not_bracket)
  with Cons show ?case by simp
qed

lemma match_all_marker: "wf_marker m \<Longrightarrow> match_all (m @ t) = m # match_all t"
  using match_at_append [of m t] wf_marker_shape(1) [of m]
  by (simp add: match_all.simps [of "m @ t"])

lemma replaceAll_Nil: "l \<noteq> [] \<Longrightarrow> replaceAll l rep [] = []"
  by (simp add: replaceAll.simps)

lemma replaceAll_hit:
  "l \<noteq> [] \<Longrightarrow> replaceAll l rep (l @ t) = rep @ replaceAll l rep t"
  by (simp add: replaceAll.simps [of l rep "l @ t"])

lemma replaceAll_miss:
  "l \<noteq> [] \<Longrightarrow> take (length l) (c # t) \<noteq> l \<Longrightarrow>
   replaceAll l rep (c # t) = c # replaceAll l rep t"
  by (simp add: replaceAll.simps [of l rep "c # t"])

lemma replaceAll_pass:
  assumes "l \<noteq> []" and "\<forall>i < length m. take (length l) (drop i (m @ t)) \<noteq> l"
  shows "replaceAll l rep (m @ t) = m @ replaceAll l rep t"
  using assms(2)
proof (induction m)
  case Nil
  show ?case by simp
next
  case (Cons c m)
  have "take (length l) (c # m @ t) \<noteq> l"
    using Cons.prems by (metis drop0 length_greater_0_conv list.distinct(1) append_Cons)
  moreover have "\<forall>i < length m. take (length l) (drop i (m @ t)) \<noteq> l"
  proof (intro allI impI)
    fix i assume "i < length m"
    then have "Suc i < length (c # m)" by simp
    from Cons.prems [rule_format, OF this] show "take (length l) (drop i (m @ t)) \<noteq> l"
      by simp
  qed
  ultimately show ?case
    using Cons.IH by (simp add: replaceAll_miss [OF assms(1)])
qed

lemma replaceAll_prefix:
  assumes "l \<noteq> []" and "rep \<noteq> []" and "hd rep = CHR '' ''"
  shows "CHR '' '' \<notin> set p \<Longrightarrow> take (length p) (replaceAll l rep s) = p \<Longrightarrow>
         take (length p) s = p"
proof (induction s arbitrary: p)
  case Nil
  then show ?case by (simp add: replaceAll_Nil [OF assms(1)])
next
  case (Cons c s)
  show ?case
  proof (cases p)
    case Nil
    then show ?thesis by simp
  next
    case (Cons c' p')
    show ?thesis
    proof (cases "take (length l) (c # s) = l")
      case True
      then have "c # s = l @ drop (length l) (c # s)"
        by (metis append_take_drop_id)
      then have "replaceAll l rep (c # s) = rep @ replaceAll l rep (drop (length l) (c # s))"
        using replaceAll_hit [OF assms(1)] by metis
      with Cons.prems(2) Cons assms(2,3) have "c' = CHR '' ''"
        by (cases rep) simp_all
      with Cons.prems(1) Cons show ?thesis by simp
    next
      case False
      with Cons.prems Cons Cons.IH [of p'] show ?thesis
        by (simp add: replaceAll_miss [OF assms(1)])
    qed
  qed
qed

lemma match_at_replaceAll_None:
  assumes l: "l \<noteq> []" and rep: "rep \<noteq> []" "hd rep = CHR '' ''"
    and none: "match_at (c # t) = None"
  shows "match_at (c # replaceAll l rep t) = None"
proof (rule ccontr)
  assume "match_at (c # replaceAll l rep t) \<noteq> None"
  then obtain m where m: "match_at (c # replaceAll l rep t) = Some m" by auto
  note wf = match_at_wf(1) [OF m] and pre = match_at_wf(2) [OF m]
  from wf_marker_shape(1) [OF wf] obtain c' p where mp: "m = c' # p" by (cases m) auto
  from pre mp have c': "c' = c" and p: "take (length p) (replaceAll l rep t) = p" by simp_all
  have "CHR '' '' \<notin> set p"
    using wf_marker_shape(4) [OF wf] mp by simp
  from replaceAll_prefix [OF l rep this p] have "take (length m) (c # t) = m"
    by (simp add: mp c')
  then have "c # t = m @ drop (length m) (c # t)"
    by (metis append_take_drop_id)
  then have "match_at (c # t) = Some m"
    using match_at_append [OF wf] by metis
  with none show False by simp
qed

lemma match_all_replaceAll:
  assumes wf: "wf_marker l" and rep: "rep \<noteq> []" "hd rep = CHR '' ''" "CHR ''['' \<notin> set rep"
  shows "match_all (replaceAll l rep s) = filter (\<lambda>m. m \<noteq> l) (match_all s)"
proof (induction s rule: length_induct)
  case (1 s)
  note l = wf_marker_shape(1) [OF wf]
  show ?case
  proof (cases s)
    case Nil
    then show ?thesis by (simp add: replaceAll_Nil [OF l] match_all.simps [of "[]"])
  next
    case (Cons c t)
    show ?thesis
    proof (cases "take (length l) s = l")
      case True
      define s' where "s' = drop (length l) s"
      have s: "s = l @ s'"
        unfolding s'_def using True by (metis append_take_drop_id)
      have "length s' < length s" using l by (simp add: s)
      with "1.IH" have ih: "match_all (replaceAll l rep s') = filter (\<lambda>m. m \<noteq> l) (match_all s')"
        by simp
      show ?thesis
        unfolding s replaceAll_hit [OF l] match_all_no_bracket [OF rep(3)] match_all_marker [OF wf] ih
        by simp
    next
      case False
      then have r: "replaceAll l rep s = c # replaceAll l rep t"
        by (simp add: Cons replaceAll_miss [OF l])
      show ?thesis
      proof (cases "match_at s")
        case None
        then have "match_at (c # replaceAll l rep t) = None"
          using match_at_replaceAll_None [OF l rep(1,2)] by (simp add: Cons)
        then have "match_all (replaceAll l rep s) = match_all (replaceAll l rep t)"
          unfolding r by (rule match_all_skip)
        also have "\<dots> = filter (\<lambda>m. m \<noteq> l) (match_all t)"
          using "1.IH" by (simp add: Cons)
        also have "match_all t = match_all s"
          using None match_all_skip [of c t] by (simp add: Cons)
        finally show ?thesis .
      next
        case (Some m)
        note wfm = match_at_wf(1) [OF Some] and pre = match_at_wf(2) [OF Some]
        define s' where "s' = drop (length m) s"
        have s: "s = m @ s'"
          unfolding s'_def using pre by (metis append_take_drop_id)
        have ml: "m \<noteq> l"
          using False pre by auto
        have "length s' < length s"
          using wf_marker_shape(1) [OF wfm] by (simp add: s)
        with "1.IH" have ih: "match_all (replaceAll l rep s') = filter (\<lambda>m. m \<noteq> l) (match_all s')"
          by simp
        have "\<forall>i < length m. take (length l) (drop i (m @ s')) \<noteq> l"
        proof (intro allI impI notI)
          fix i assume i: "i < length m" and t: "take (length l) (drop i (m @ s')) = l"
          show False
          proof (cases i)
            case 0
            with t False s show False by simp
          next
            case (Suc j)
            have "hd (drop i (m @ s')) = (m @ s') ! i"
              using i by (intro hd_drop_conv_nth) simp
            also have "\<dots> = m ! i" using i by (simp add: nth_append)
            also have "\<dots> = tl m ! j"
              using i Suc by (cases m) simp_all
            finally have "hd (drop i (m @ s')) \<in> set (tl m)"
              using i Suc by (cases m) simp_all
            moreover have "hd (drop i (m @ s')) = hd l"
              using t l by (metis hd_take length_greater_0_conv)
            ultimately show False
              using wf_marker_shape(3) [OF wfm] wf_marker_shape(2) [OF wf] by simp
          qed
        qed
        from replaceAll_pass [OF l this]
        have "replaceAll l rep s = m @ replaceAll l rep s'"
          by (simp add: s)
        then show ?thesis
          using ml ih by (simp add: s match_all_marker [OF wfm])
      qed
    qed
  qed
qed

lemma show_nat_digits: "set (show_nat n) \<subseteq> set ''0123456789''"
proof -
  define D where "D = set ''0123456789''"
  have d: "''0123456789'' ! k \<in> D" if "k < 10" for k
    unfolding D_def using that by (intro nth_mem) simp
  have "set (show_nat n) \<subseteq> D"
  proof (induction n rule: show_nat.induct)
    case (1 n)
    show ?case
    proof (cases "n < 10")
      case True
      then show ?thesis
        using d [of n] by (subst show_nat.simps) simp
    next
      case False
      then show ?thesis
        using "1.IH" d [of "n mod 10"] by (subst show_nat.simps) simp
    qed
  qed
  then show ?thesis unfolding D_def .
qed

lemma placeholder_shape:
  "placeholder k \<noteq> []" "hd (placeholder k) = CHR '' ''" "CHR ''['' \<notin> set (placeholder k)"
  using show_nat_digits [of k] by (auto simp: placeholder_def)

lemma match_all_replace_links:
  "\<forall>l \<in> set links. wf_marker l \<Longrightarrow>
   match_all (replace_links n links s) = filter (\<lambda>m. m \<notin> set links) (match_all s)"
proof (induction links arbitrary: n s)
  case Nil
  show ?case by simp
next
  case (Cons l links)
  then have "wf_marker l" by simp
  from match_all_replaceAll [OF this placeholder_shape]
  have "match_all (replaceAll l (placeholder n) s) = filter (\<lambda>m. m \<noteq> l) (match_all s)" .
  with Cons show ?case
    by (auto intro: filter_cong)
qed

lemma match_all_inline_text:
  "match_all (replace_links 1 (inline_links pool s) s)
     = filter (\<lambda>l. \<not> resolvable pool l) (match_all s)"
proof -
  have "\<forall>l \<in> set (inline_links pool s). wf_marker l"
    by (auto simp: inline_links_set intro: match_all_wf)
  from match_all_replace_links [OF this]
  have "match_all (replace_links 1 (inline_links pool s) s)
      = filter (\<lambda>m. m \<notin> set (inline_links pool s)) (match_all s)" .
  also have "\<dots> = filter (\<lambda>l. \<not> resolvable pool l) (match_all s)"
    by (rule filter_cong) (auto simp: inline_links_set)
  finally show ?thesis .
qed

section \<open>The fallback extractors\<close>

lemma printable_nullish: "nullish v \<Longrightarrow> printable v"
  by (cases v) (simp_all add: printable_def)

lemma printable_primitive: "\<not> is_object v \<Longrightarrow> printable v"
  by (cases v) (simp_all add: printable_def)

lemma printable_coalesce: "printable d \<Longrightarrow> printable (coalesce v d) = printable v"
  by (simp add: coalesce_def printable_nullish)

lemma template_eq: "template vs = (if list_all printable vs then Inr () else Inl TypeError)"
  by (simp add: template_def printable_def list_ex_iff list_all_iff)

lemma log_values:
  "list_all printable
     [get_prop pf ''docId'', citation_id (tool_citation i pf),
      get_prop pf ''source'', filepath (tool_citation i pf),
      get_prop pf ''page'', part_index (tool_citation i pf)] = citation_loggable pf"
proof -
  have "printable (coalesce (get_prop pf ''source'') (coalesce (get_prop pf ''filepath'') Null))
      = printable (coalesce (get_prop pf ''source'') (get_prop pf ''filepath''))"
    by (cases "nullish (get_prop pf ''source'')")
       (simp_all add: coalesce_def printable_nullish)
  then show ?thesis
    by (auto simp: tool_citation_def citation_loggable_def printable_coalesce
        printable_primitive)
qed

lemma template_log:
  "template [get_prop pf ''docId'', citation_id (tool_citation i pf),
             get_prop pf ''source'', filepath (tool_citation i pf),
             get_prop pf ''page'', part_index (tool_citation i pf)]
     = (if citation_loggable pf then Inr () else Inl TypeError)"
  unfolding template_eq log_values ..

lemma tool_loop_eq:
  "tool_loop i xs =
     (if list_all citation_loggable xs
      then Inr (map (\<lambda>(j, pf). tool_citation j pf) (number_from i xs))
      else Inl TypeError)"
  by (induction xs arbitrary: i)
     (simp_all add: template_log Let_def)



lemma message_citations_eq:
  "message_citations parse msg =
     (if message_loggable parse msg
      then Inr (map (\<lambda>(j, pf). tool_citation j pf) (number_from 0 (message_array parse msg)))
      else Inl TypeError)"
  by (cases "get_prop msg ''content''")
     (auto simp: message_citations_def message_array_def message_loggable_def template_eq
        tool_loop_eq split: option.splits jsval.splits)

lemma for_of_eq:
  assumes "\<And>x. body x = (if P x then Inr (f x) else Inl TypeError)"
  shows "for_of body xs = (if list_all P xs then Inr (concat (map f xs)) else Inl TypeError)"
  by (induction xs) (simp_all add: assms)

lemma list_all_concat_map:
  "list_all P (concat (map f xs)) = list_all (\<lambda>x. list_all P (f x)) xs"
  by (induction xs) simp_all

lemma choice_citations_eq:
  "choice_citations parse choice =
     (if list_all (message_loggable parse) (choice_messages choice)
      then Inr (concat (map (\<lambda>m. map (\<lambda>(j, pf). tool_citation j pf)
                                   (number_from 0 (message_array parse m)))
                          (choice_messages choice)))
      else Inl TypeError)"
  by (cases "get_prop choice ''messages''")
     (simp_all add: choice_citations_def choice_messages_def
        for_of_eq [of "message_citations parse", OF message_citations_eq])

lemma extract_eq:
  "extractPromptFlowCitations parse ans =
     (if loggable parse ans then Inr (tool_citations parse ans) else Inl TypeError)"
proof (cases "choices ans")
  case (Arr chs)
  have "concat (map (\<lambda>c. concat (map g (choice_messages c))) chs)
      = concat (map g (concat (map choice_messages chs)))" for g :: "jsval \<Rightarrow> Citation list"
    by (induction chs) simp_all
  with Arr show ?thesis
    by (simp add: extractPromptFlowCitations_def all_messages_def loggable_def
        tool_citations_def list_all_concat_map
        for_of_eq [of "choice_citations parse", OF choice_citations_eq] comp_def)
qed (simp_all add: extractPromptFlowCitations_def all_messages_def loggable_def
      tool_citations_def)






section \<open>When parseAnswer returns\<close>

lemma inline_step_usable:
  "entry_usable pool l \<Longrightarrow> \<exists>st'. inline_step pool st l = Inr st'"
  by (auto simp: entry_usable_def inline_step_def split: sum.splits)

lemma inline_step_unusable:
  assumes "\<not> entry_usable pool l"
    and "Str (citationIndex l) \<notin> citation_id ` set (filteredCitations st)"
  shows "inline_step pool st l = Inl TypeError"
proof -
  have f: "find (\<lambda>c. citation_id c = Str (citationIndex l)) (filteredCitations st) = None"
    unfolding find_None_iff using assms(2) by force
  show ?thesis
  proof (cases "index_prop pool (int (Number_of (citationIndex l)) - 1)")
    case (Inl e)
    then have "e = TypeError" by (cases pool) simp_all
    with Inl show ?thesis by (simp add: inline_step_def)
  next
    case (Inr v)
    with assms(1) show ?thesis
      by (simp add: inline_step_def entry_usable_def f)
  qed
qed

lemma forEach_link_usable:
  assumes "\<forall>l \<in> set links. is_marker l" and "added_usable pool st"
  shows "if list_all (entry_usable pool) links
         then \<exists>st'. forEach_link pool links st = Inr st'
         else forEach_link pool links st = Inl TypeError"
  using assms
proof (induction links arbitrary: st)
  case Nil
  show ?case by simp
next
  case (Cons l links)
  have m: "is_marker l" "\<forall>l \<in> set links. is_marker l"
    using Cons.prems(1) by simp_all
  show ?case
  proof (cases "entry_usable pool l")
    case True
    then obtain st1 where s1: "inline_step pool st l = Inr st1"
      using inline_step_usable by blast
    have "added_usable pool st1"
      using inline_step_result [OF s1] Cons.prems(2) m(1) True
      by (auto simp: added_usable_def inline_citation_def split: if_splits)
    from Cons.IH [OF m(2) this] show ?thesis
      using True s1 by simp
  next
    case False
    have "Str (citationIndex l) \<notin> citation_id ` set (filteredCitations st)"
    proof
      assume "Str (citationIndex l) \<in> citation_id ` set (filteredCitations st)"
      then obtain l' where "is_marker l'" "entry_usable pool l'"
        "citationIndex l = citationIndex l'"
        using Cons.prems(2) by (force simp: added_usable_def)
      with m(1) False show False
        using is_marker_inj [of l l'] by simp
    qed
    from inline_step_unusable [OF False this] show ?thesis
      using False by simp
  qed
qed

lemma inline_pass_usable:
  "if pool_usable pool text then \<exists>st. inline_pass pool text = Inr st
   else inline_pass pool text = Inl TypeError"
  unfolding inline_pass_def pool_usable_def
  by (rule forEach_link_usable) (simp_all add: match_all_markers added_usable_def)


lemma pool_usable_no_marker: "match_all text = [] \<Longrightarrow> pool_usable pool text"
  by (simp add: pool_usable_def)


text \<open>
  The outcome of \<^verbatim>\<open>parseAnswer\<close> on a string answer, in closed form.
\<close>

lemma parseAnswer_flat_eq:
  assumes "answer ans = Str text"
  shows "parseAnswer_flat ans =
     (if \<not> pool_usable (citations ans) text then Inl TypeError
      else if inline_links (citations ans) text \<noteq> [] then Inr (Some (inline_result ans text))
      else Inr (Some (result_object ans text
                  (reindex_loop 0 (extractPromptFlowCitations_flat ans)))))"
proof (cases "pool_usable (citations ans) text")
  case False
  with inline_pass_usable [of "citations ans" "text"] show ?thesis
    using assms by (simp add: parseAnswer_flat_def)
next
  case True
  with inline_pass_usable [of "citations ans" "text"]
  obtain st where st: "inline_pass (citations ans) text = Inr st" by auto
  show ?thesis
    using True parseAnswer_inline(2) [OF assms st] parseAnswer_fallback(2) [OF assms st]
    by simp
qed

lemma parseAnswer_eq:
  assumes "answer ans = Str text"
  shows "parseAnswer parse ans =
     (if \<not> pool_usable (citations ans) text then Inl TypeError
      else if inline_links (citations ans) text \<noteq> [] then Inr (Some (inline_result ans text))
      else if loggable parse ans
      then Inr (Some (result_object ans text (reindex_loop 0 (tool_citations parse ans))))
      else Inl TypeError)"
proof (cases "pool_usable (citations ans) text")
  case False
  with inline_pass_usable [of "citations ans" "text"] show ?thesis
    using assms by (simp add: parseAnswer_def)
next
  case True
  with inline_pass_usable [of "citations ans" "text"]
  obtain st where st: "inline_pass (citations ans) text = Inr st" by auto
  show ?thesis
    using True parseAnswer_inline(1) [OF assms st, of parse]
      parseAnswer_fallback(1) [OF assms st, of parse]
    by (simp add: extract_eq)
qed



section \<open>The replacement of the markers\<close>

text \<open>
  C6. Whenever the pool is usable for the answer text (every marker reads an entry that
  is an object or falsy, as in every array of objects), the first version of
  \<^verbatim>\<open>parseAnswer\<close> returns a result, and so do the later versions when a marker resolves
  or the payload is loggable. The text of the result is the answer
  text in which, for each distinct resolvable marker in the order of first occurrence,
  every occurrence of the marker text has been replaced (\<^verbatim>\<open>replaceAll\<close>) by the
  placeholder: a space, a caret, the counter, a caret, a space, the counter starting at
  1 and growing by one per marker. No resolvable marker is left in the returned text:
  its markers are the unresolvable markers of the answer text, in their order. When a
  marker resolves, every version returns the inline result, in which the citation of a
  marker carries the counter of its placeholder as its \<^verbatim>\<open>reindex_id\<close>.
\<close>

theorem inline_replacement:
  assumes "answer ans = Str text" and "pool_usable (citations ans) text"
  shows "(\<exists>r. parseAnswer_flat ans = Inr (Some r) \<and>
              markdownFormatText r = replace_links 1 (inline_links (citations ans) text) text \<and>
              match_all (markdownFormatText r)
                = filter (\<lambda>l. \<not> resolvable (citations ans) l) (match_all text)) \<and>
         (inline_links (citations ans) text \<noteq> [] \<or> loggable parse ans \<longrightarrow>
            (\<exists>r. parseAnswer parse ans = Inr (Some r) \<and>
                 markdownFormatText r = replace_links 1 (inline_links (citations ans) text) text \<and>
                 match_all (markdownFormatText r)
                   = filter (\<lambda>l. \<not> resolvable (citations ans) l) (match_all text))) \<and>
         (inline_links (citations ans) text \<noteq> [] \<longrightarrow>
            parseAnswer_flat ans = Inr (Some (inline_result ans text)) \<and>
            parseAnswer parse ans = Inr (Some (inline_result ans text)) \<and>
            map reindex_id (parsed_citations (inline_result ans text))
              = map (\<lambda>k. Str (show_nat k))
                  [1..<Suc (length (inline_links (citations ans) text))])"
proof -
  let ?links = "inline_links (citations ans) text"
  have m: "match_all (replace_links 1 ?links text)
      = filter (\<lambda>l. \<not> resolvable (citations ans) l) (match_all text)"
    by (rule match_all_inline_text)
  have i: "markdownFormatText (inline_result ans text) = replace_links 1 ?links text"
    by (simp add: inline_result_def)
  have e: "markdownFormatText (result_object ans text cs) = replace_links 1 ?links text"
    if "?links = []" for cs
    using that by (simp add: result_object_def)
  have flat: "\<exists>r. parseAnswer_flat ans = Inr (Some r) \<and>
              markdownFormatText r = replace_links 1 ?links text"
    using assms(2) i e by (simp add: parseAnswer_flat_eq [OF assms(1)])
  have struct: "\<exists>r. parseAnswer parse ans = Inr (Some r) \<and>
              markdownFormatText r = replace_links 1 ?links text"
    if "?links \<noteq> [] \<or> loggable parse ans"
    using assms(2) i e that by (auto simp: parseAnswer_eq [OF assms(1)])
  have r: "map reindex_id (parsed_citations (inline_result ans text))
      = map (\<lambda>k. Str (show_nat k)) [1..<Suc (length ?links)]"
    using inline_citations_reindex [of "citations ans" 1 ?links]
    by (simp add: inline_result_def del: map_map)
  show ?thesis
  proof (intro conjI impI)
    from flat m show "\<exists>r. parseAnswer_flat ans = Inr (Some r) \<and>
              markdownFormatText r = replace_links 1 ?links text \<and>
              match_all (markdownFormatText r)
                = filter (\<lambda>l. \<not> resolvable (citations ans) l) (match_all text)"
      by auto
    show "\<exists>r. parseAnswer parse ans = Inr (Some r) \<and>
              markdownFormatText r = replace_links 1 ?links text \<and>
              match_all (markdownFormatText r)
                = filter (\<lambda>l. \<not> resolvable (citations ans) l) (match_all text)"
      if "?links \<noteq> [] \<or> loggable parse ans"
      using struct [OF that] m by auto
    show "parseAnswer_flat ans = Inr (Some (inline_result ans text))" if "?links \<noteq> []"
      using assms(2) that by (simp add: parseAnswer_flat_eq [OF assms(1)])
    show "parseAnswer parse ans = Inr (Some (inline_result ans text))" if "?links \<noteq> []"
      using assms(2) that by (simp add: parseAnswer_eq [OF assms(1)])
    show "map reindex_id (parsed_citations (inline_result ans text))
      = map (\<lambda>k. Str (show_nat k)) [1..<Suc (length ?links)]"
      by (rule r)
  qed
qed

text \<open>
  The scenario of the spec: two markers, a pool of two entries with the same filepath.
  The first version and the later ones return the same text and citations.
\<close>

theorem inline_replacement_witness:
  "(\<exists>r. parseAnswer_flat scenarioAnswer = Inr (Some r) \<and>
        markdownFormatText r = ''See  ^1^  and  ^2^ .'' \<and>
        map part_index (parsed_citations r) = [Num 1, Num 2] \<and>
        map reindex_id (parsed_citations r) = [Str ''1'', Str ''2'']) \<and>
   (\<exists>r. parseAnswer (\<lambda>s. None) scenarioAnswer = Inr (Some r) \<and>
        markdownFormatText r = ''See  ^1^  and  ^2^ .'' \<and>
        map part_index (parsed_citations r) = [Num 1, Num 2] \<and>
        map reindex_id (parsed_citations r) = [Str ''1'', Str ''2''])"
proof -
  let ?t = "''See [doc1] and [doc2].''"
  have ans: "answer scenarioAnswer = Str ?t"
    by (simp add: scenarioAnswer_def)
  have usable: "pool_usable (citations scenarioAnswer) ?t"
    by code_simp
  have links: "inline_links (citations scenarioAnswer) ?t = [''[doc1]'', ''[doc2]'']"
    by code_simp
  have m: "markdownFormatText (inline_result scenarioAnswer ?t) = ''See  ^1^  and  ^2^ .''"
    by code_simp
  have p: "map part_index (parsed_citations (inline_result scenarioAnswer ?t)) = [Num 1, Num 2]"
    by code_simp
  note t = inline_replacement [OF ans usable, of "\<lambda>s. None"]
  from t have flat: "parseAnswer_flat scenarioAnswer = Inr (Some (inline_result scenarioAnswer ?t))"
    and struct: "parseAnswer (\<lambda>s. None) scenarioAnswer
      = Inr (Some (inline_result scenarioAnswer ?t))"
    and "map reindex_id (parsed_citations (inline_result scenarioAnswer ?t))
      = map (\<lambda>k. Str (show_nat k))
          [1..<Suc (length (inline_links (citations scenarioAnswer) ?t))]"
    by (simp_all add: links)
  then have r: "map reindex_id (parsed_citations (inline_result scenarioAnswer ?t))
      = [Str ''1'', Str ''2'']"
    by (simp add: links upt_rec show_nat_12)
  show ?thesis
    unfolding flat struct using m p r by simp
qed

section \<open>Exceptions and local recovery\<close>










section \<open>parseAnswer: the chart\<close>





end
